theory Spec2Isabelle
  imports Main "HOL-Library.AList"
begin

section \<open>Values, the graph state and the errors\<close>

text \<open>
  Node identifiers are JavaScript values. Two shapes matter to the code: a string, and an
  array, which the bunch test accepts as a collection of node identifiers. Edge identifiers
  are strings.
\<close>

datatype jsval = Str string | Arr "jsval list"

type_synonym edge = string

text \<open>
  A bucket entry is what \<open>updateStructureIndex\<close> stores under a neighbour: the edge
  identifier itself in a simple graph, a reference to a set of edge identifiers in a
  multigraph (\<open>multi ? new Set() : edge\<close>). The sets live in a store, indexed by their
  address, so that two entries holding the same reference see the same members. A set is
  the list of its members in insertion order.

  A bucket, the node table and the edge table are association lists in insertion order
  (that JavaScript enumerates the integer-like property names of an object first is not
  modelled). The property accesses of \<open>indices.js\<close> (\<open>k in o\<close>, \<open>o[k]\<close>,
  \<open>delete o[k]\<close>) and the \<open>Map\<close> methods of the iteration code (\<open>get\<close>, \<open>forEach\<close>)
  are both read as operations of that one dictionary type, whichever value \<open>graph.map\<close>
  has; the field \<open>usesMap\<close> is \<open>graph.map\<close> and selects between the two families of
  functions of the iteration code, as there.

  Modelled from the spec: \<open>BasicSet\<close> (utils) is not in the sources. It is the
  deduplicating collection of edge identifiers that the iteration code uses without
  \<open>graph.map\<close> where it uses a \<open>Set\<close> with it: \<open>values()\<close> is the array of its members,
  \<open>size\<close> their number, \<open>entries\<close> an object whose property names are the members, and
  \<open>add\<close> inserts a member not yet present. Both are the stored member list.
\<close>

datatype entry = Scalar edge | SetRef nat

type_synonym bucket = "(jsval \<times> entry) list"

record nodeData =
  inB :: "bucket option"
  outB :: "bucket option"
  undirectedInB :: "bucket option"
  undirectedOutB :: "bucket option"

record edgeData =
  source :: jsval
  target :: jsval
  undirected :: bool

record graph =
  multi :: bool
  usesMap :: bool
  nodes :: "(jsval \<times> nodeData) list"
  edges :: "(edge \<times> edgeData) list"
  sets :: "edge list list"

datatype error =
    TypeError
  | NotFoundGraphError string
  | InvalidArgumentsGraphError string

datatype bucketKey = KeyIn | KeyOut | KeyUndirectedIn | KeyUndirectedOut

fun getBucket :: "bucketKey \<Rightarrow> nodeData \<Rightarrow> bucket option" where
  "getBucket KeyIn nd = inB nd"
| "getBucket KeyOut nd = outB nd"
| "getBucket KeyUndirectedIn nd = undirectedInB nd"
| "getBucket KeyUndirectedOut nd = undirectedOutB nd"

fun setBucket :: "bucketKey \<Rightarrow> bucket \<Rightarrow> nodeData \<Rightarrow> nodeData" where
  "setBucket KeyIn b nd = nd\<lparr>inB := Some b\<rparr>"
| "setBucket KeyOut b nd = nd\<lparr>outB := Some b\<rparr>"
| "setBucket KeyUndirectedIn b nd = nd\<lparr>undirectedInB := Some b\<rparr>"
| "setBucket KeyUndirectedOut b nd = nd\<lparr>undirectedOutB := Some b\<rparr>"

definition outKey :: "bool \<Rightarrow> bucketKey" where
  "outKey u = (if u then KeyUndirectedOut else KeyOut)"

definition inKey :: "bool \<Rightarrow> bucketKey" where
  "inKey u = (if u then KeyUndirectedIn else KeyIn)"

text \<open>The members of the set at an address; an address outside the store holds nothing.\<close>

definition members :: "edge list list \<Rightarrow> nat \<Rightarrow> edge list" where
  "members h a = (if a < length h then h ! a else [])"

text \<open>\<open>o[key] || Object.create(null)\<close>: a missing bucket is read as an empty one.\<close>

definition orEmpty :: "bucket option \<Rightarrow> bucket" where
  "orEmpty bo = (case bo of None \<Rightarrow> [] | Some b \<Rightarrow> b)"

definition setAdd :: "edge \<Rightarrow> edge list \<Rightarrow> edge list" where
  "setAdd e xs = (if e \<in> set xs then xs else xs @ [e])"

definition setDelete :: "edge \<Rightarrow> edge list \<Rightarrow> edge list" where
  "setDelete e xs = removeAll e xs"

section \<open>The structure index (indices.js)\<close>

text \<open>
  \<open>updateStructureIndex(graph, edge, data)\<close>. Reading a property of \<open>undefined\<close> (a
  node missing from \<open>_nodes\<close>) and calling \<open>add\<close> on a stored string raise a TypeError.
\<close>

definition updateStructureIndex :: "graph \<Rightarrow> edge \<Rightarrow> edgeData \<Rightarrow> error + graph" where
  "updateStructureIndex g e d =
    (case map_of (nodes g) (source d) of
       None \<Rightarrow> Inl TypeError
     | Some sourceData \<Rightarrow>
        let ok = outKey (undirected d);
            b0 = orEmpty (getBucket ok sourceData);
            v = (case map_of b0 (target d) of
                   Some w \<Rightarrow> w
                 | None \<Rightarrow> if multi g then SetRef (length (sets g)) else Scalar e);
            b1 = (if map_of b0 (target d) = None then b0 @ [(target d, v)] else b0);
            h1 = (if map_of b0 (target d) = None \<and> multi g then sets g @ [[]] else sets g)
        in case (if multi g
                 then (case v of
                         SetRef a \<Rightarrow> Inr (h1[a := setAdd e (members h1 a)])
                       | Scalar s \<Rightarrow> Inl TypeError)
                 else Inr h1) of
             Inl err \<Rightarrow> Inl err
           | Inr h2 \<Rightarrow>
              let g1 = g\<lparr>nodes := AList.update (source d) (setBucket ok b1 sourceData) (nodes g),
                         sets := h2\<rparr>
              in if source d = target d then Inr g1
                 else (case map_of (nodes g) (target d) of
                         None \<Rightarrow> Inl TypeError
                       | Some targetData \<Rightarrow>
                          let ik = inKey (undirected d);
                              c0 = orEmpty (getBucket ik targetData);
                              c1 = (if map_of c0 (source d) = None
                                    then c0 @ [(source d, v)] else c0)
                          in Inr (g1\<lparr>nodes := AList.update (target d)
                                     (setBucket ik c1 targetData) (nodes g1)\<rparr>)))"

text \<open>
  \<open>clearEdgeFromStructureIndex(graph, edge, data)\<close>. \<open>target in sourceIndex\<close> and
  \<open>delete targetIndex[source]\<close> raise a TypeError when the bucket is \<open>undefined\<close>;
  so does \<open>delete\<close> called on a stored string.
\<close>

definition clearEdgeFromStructureIndex :: "graph \<Rightarrow> edge \<Rightarrow> edgeData \<Rightarrow> error + graph" where
  "clearEdgeFromStructureIndex g e d =
    (case map_of (nodes g) (source d) of
       None \<Rightarrow> Inl TypeError
     | Some sourceData \<Rightarrow>
        (case getBucket (outKey (undirected d)) sourceData of
           None \<Rightarrow> Inl TypeError
         | Some sourceIndex \<Rightarrow>
            (case (case map_of sourceIndex (target d) of
                     None \<Rightarrow> Inr (sourceIndex, sets g)
                   | Some v \<Rightarrow>
                      if multi g
                      then (case v of
                              SetRef a \<Rightarrow>
                                Inr (sourceIndex,
                                     (sets g)[a := setDelete e (members (sets g) a)])
                            | Scalar s \<Rightarrow> Inl TypeError)
                      else Inr (AList.delete (target d) sourceIndex, sets g)) of
               Inl err \<Rightarrow> Inl err
             | Inr (b1, h1) \<Rightarrow>
                let g1 = g\<lparr>nodes := AList.update (source d)
                             (setBucket (outKey (undirected d)) b1 sourceData) (nodes g),
                           sets := h1\<rparr>
                in if multi g then Inr g1
                   else (case map_of (nodes g1) (target d) of
                           None \<Rightarrow> Inl TypeError
                         | Some targetData \<Rightarrow>
                            (case getBucket (inKey (undirected d)) targetData of
                               None \<Rightarrow> Inl TypeError
                             | Some targetIndex \<Rightarrow>
                                Inr (g1\<lparr>nodes := AList.update (target d)
                                       (setBucket (inKey (undirected d))
                                          (AList.delete (source d) targetIndex) targetData)
                                       (nodes g1)\<rparr>))))))"

definition clearStructureIndex :: "graph \<Rightarrow> graph" where
  "clearStructureIndex g =
     g\<lparr>nodes := map (\<lambda>(k, nd). (k, nd\<lparr>inB := None, outB := None,
                                      undirectedInB := None, undirectedOutB := None\<rparr>))
                    (nodes g)\<rparr>"

section \<open>Edge iteration\<close>

datatype edgeType = Mixed | Directed | Undirected | SelfLoops

datatype direction = DirIn | DirOut

record description =
  name :: string
  counter :: string
  type :: edgeType
  direction :: "direction option"

definition EDGES_ITERATION :: "description list" where
  "EDGES_ITERATION =
    [\<lparr>name = ''edges'', counter = ''countEdges'', type = Mixed, direction = None\<rparr>,
     \<lparr>name = ''inEdges'', counter = ''countInEdges'', type = Directed, direction = Some DirIn\<rparr>,
     \<lparr>name = ''outEdges'', counter = ''countOutEdges'', type = Directed, direction = Some DirOut\<rparr>,
     \<lparr>name = ''inboundEdges'', counter = ''countInboundEdges'', type = Mixed,
        direction = Some DirIn\<rparr>,
     \<lparr>name = ''outboundEdges'', counter = ''countOutboundEdges'', type = Mixed,
        direction = Some DirOut\<rparr>,
     \<lparr>name = ''directedEdges'', counter = ''countDirectedEdges'', type = Directed,
        direction = None\<rparr>,
     \<lparr>name = ''undirectedEdges'', counter = ''countUndirectedEdges'', type = Undirected,
        direction = None\<rparr>,
     \<lparr>name = ''selfLoops'', counter = ''countSelfLoops'', type = SelfLoops, direction = None\<rparr>]"

text \<open>
  A JavaScript number as the counters produce it: \<open>x.size\<close> of a string is
  \<open>undefined\<close>, and \<open>nb += undefined\<close> is \<open>NaN\<close>.
\<close>

datatype jsnum = Num nat | NaN | Undefined

fun jsAdd :: "jsnum \<Rightarrow> jsnum \<Rightarrow> jsnum" where
  "jsAdd (Num a) (Num b) = Num (a + b)"
| "jsAdd a b = NaN"

datatype result = EdgeArray "edge list" | Number jsnum

definition bindE :: "error + 'a \<Rightarrow> ('a \<Rightarrow> error + 'b) \<Rightarrow> error + 'b" where
  "bindE m f = (case m of Inl err \<Rightarrow> Inl err | Inr x \<Rightarrow> f x)"

subsection \<open>What the iteration code does with a bucket entry\<close>

text \<open>
  The iteration code treats every bucket entry as a set. On a set reference its reads are
  the members. On a stored edge identifier (a string) they are what JavaScript does with a
  string: \<open>Array.from(s)\<close> is the array of its characters, \<open>s.size\<close> and
  \<open>s.entries\<close> are \<open>undefined\<close>, \<open>s.values()\<close> and \<open>s.forEach(f)\<close> raise
  a TypeError, and the empty string is falsy.
\<close>

definition arrayFrom :: "edge list list \<Rightarrow> entry \<Rightarrow> edge list" where
  "arrayFrom h v = (case v of SetRef a \<Rightarrow> members h a | Scalar s \<Rightarrow> map (\<lambda>c. [c]) s)"

definition valuesOf :: "edge list list \<Rightarrow> entry \<Rightarrow> error + edge list" where
  "valuesOf h v = (case v of SetRef a \<Rightarrow> Inr (members h a) | Scalar s \<Rightarrow> Inl TypeError)"

definition sizeOf :: "edge list list \<Rightarrow> entry \<Rightarrow> jsnum" where
  "sizeOf h v = (case v of SetRef a \<Rightarrow> Num (length (members h a)) | Scalar s \<Rightarrow> Undefined)"

definition truthy :: "entry \<Rightarrow> bool" where
  "truthy v = (case v of SetRef a \<Rightarrow> True | Scalar s \<Rightarrow> s \<noteq> [])"

subsection \<open>Collecting, counting and merging\<close>

fun collectEdgesFromMap :: "edge list list \<Rightarrow> bucket option \<Rightarrow> jsval option \<Rightarrow> error + edge list"
  where
  "collectEdgesFromMap h None key = Inr []"
| "collectEdgesFromMap h (Some m) (Some key) =
     (case map_of m key of
        None \<Rightarrow> Inr []
      | Some v \<Rightarrow> if truthy v then Inr (arrayFrom h v) else Inr [])"
| "collectEdgesFromMap h (Some m) None = Inr (concat (map (\<lambda>(k, v). arrayFrom h v) m))"

fun pushValues :: "edge list list \<Rightarrow> bucket \<Rightarrow> edge list \<Rightarrow> error + edge list" where
  "pushValues h [] acc = Inr acc"
| "pushValues h ((k, v) # rest) acc =
     bindE (valuesOf h v) (\<lambda>xs. pushValues h rest (acc @ xs))"

fun collectEdgesFromObject ::
  "edge list list \<Rightarrow> bucket option \<Rightarrow> jsval option \<Rightarrow> error + edge list" where
  "collectEdgesFromObject h None key = Inr []"
| "collectEdgesFromObject h (Some ob) (Some key) =
     (case map_of ob key of None \<Rightarrow> Inr [] | Some v \<Rightarrow> valuesOf h v)"
| "collectEdgesFromObject h (Some ob) None = pushValues h ob []"

fun countEdgesFromMap :: "edge list list \<Rightarrow> bucket option \<Rightarrow> jsval option \<Rightarrow> jsnum" where
  "countEdgesFromMap h None key = Num 0"
| "countEdgesFromMap h (Some m) (Some key) =
     (case map_of m key of
        None \<Rightarrow> Num 0
      | Some v \<Rightarrow> if truthy v then sizeOf h v else Num 0)"
| "countEdgesFromMap h (Some m) None =
     foldl (\<lambda>nb (k, v). jsAdd nb (sizeOf h v)) (Num 0) m"

fun countEdgesFromObject :: "edge list list \<Rightarrow> bucket option \<Rightarrow> jsval option \<Rightarrow> jsnum" where
  "countEdgesFromObject h None key = Num 0"
| "countEdgesFromObject h (Some ob) (Some key) =
     (case map_of ob key of None \<Rightarrow> Num 0 | Some v \<Rightarrow> sizeOf h v)"
| "countEdgesFromObject h (Some ob) None =
     foldl (\<lambda>nb (k, v). jsAdd nb (sizeOf h v)) (Num 0) ob"

text \<open>
  \<open>mergeEdgesFromMap(edges, map)\<close> calls \<open>set.forEach\<close> on every entry;
  \<open>mergeEdgesFromObject(edges, object)\<close> enumerates \<open>object[k].entries\<close> with
  \<open>for ... in\<close>, which runs no iteration on \<open>undefined\<close>.
\<close>

fun mergeEdgesFromMap :: "edge list list \<Rightarrow> edge list \<Rightarrow> bucket option \<Rightarrow> error + edge list"
  where
  "mergeEdgesFromMap h acc None = Inr acc"
| "mergeEdgesFromMap h acc (Some []) = Inr acc"
| "mergeEdgesFromMap h acc (Some ((k, v) # rest)) =
     (case v of
        Scalar s \<Rightarrow> Inl TypeError
      | SetRef a \<Rightarrow> mergeEdgesFromMap h (foldl (\<lambda>es x. setAdd x es) acc (members h a)) (Some rest))"

fun mergeEdgesFromObject ::
  "edge list list \<Rightarrow> edge list \<Rightarrow> bucket option \<Rightarrow> error + edge list" where
  "mergeEdgesFromObject h acc None = Inr acc"
| "mergeEdgesFromObject h acc (Some []) = Inr acc"
| "mergeEdgesFromObject h acc (Some ((k, v) # rest)) =
     (case v of
        Scalar s \<Rightarrow> mergeEdgesFromObject h acc (Some rest)
      | SetRef a \<Rightarrow>
          mergeEdgesFromObject h (foldl (\<lambda>es x. setAdd x es) acc (members h a)) (Some rest))"

subsection \<open>What the Graph class and the utilities provide\<close>

text \<open>
  Modelled from the spec: \<open>Graph.hasNode\<close> is not in the sources; it is the
  node-existence check (identifier to boolean) on the canonical node store.
\<close>

definition hasNode :: "graph \<Rightarrow> jsval \<Rightarrow> bool" where
  "hasNode g v = (map_of (nodes g) v \<noteq> None)"

text \<open>
  Modelled from the spec: \<open>Graph.hasDirectedEdge\<close> and \<open>Graph.hasUndirectedEdge\<close> are
  not in the sources; they are the directed-edge-exists and undirected-edge-exists checks
  for a given pair, answered from the canonical edge store. An undirected edge joins its
  two endpoints in either order.
\<close>

definition hasDirectedEdge :: "graph \<Rightarrow> jsval \<Rightarrow> jsval \<Rightarrow> bool" where
  "hasDirectedEdge g s t =
     list_ex (\<lambda>(e, d). \<not> undirected d \<and> source d = s \<and> target d = t) (edges g)"

definition hasUndirectedEdge :: "graph \<Rightarrow> jsval \<Rightarrow> jsval \<Rightarrow> bool" where
  "hasUndirectedEdge g s t =
     list_ex (\<lambda>(e, d). undirected d \<and>
                ((source d = s \<and> target d = t) \<or> (source d = t \<and> target d = s))) (edges g)"

text \<open>
  Modelled from the spec: the \<open>size\<close> getter of \<open>Graph\<close> is not in the sources; it is the
  global edge count.
\<close>

definition graphSize :: "graph \<Rightarrow> nat" where
  "graphSize g = length (edges g)"

text \<open>
  Modelled from the spec: \<open>Graph.computeIndex\<close> is not in the sources; it builds the
  structure index if it is not already built, and is a no-op otherwise. A \<open>graph\<close> value
  here is a graph whose structure index is built and kept by the two update hooks above,
  so the call leaves it as it is.
\<close>

definition computeIndex :: "graph \<Rightarrow> graph" where
  "computeIndex g = g"

text \<open>
  Modelled from the spec: \<open>isBunch\<close> and \<open>overBunch\<close> (utils) are not in the sources. A
  bunch is a collection of node identifiers; \<open>overBunch\<close> runs the callback on each of
  them in order, and an exception thrown by the callback ends the iteration.
\<close>

fun isBunch :: "jsval \<Rightarrow> bool" where
  "isBunch (Arr xs) = True"
| "isBunch (Str s) = False"

fun overList :: "('s \<Rightarrow> jsval \<Rightarrow> error + 's) \<Rightarrow> jsval list \<Rightarrow> 's \<Rightarrow> error + 's" where
  "overList f [] s = Inr s"
| "overList f (x # xs) s = bindE (f s x) (overList f xs)"

fun overBunch :: "jsval \<Rightarrow> ('s \<Rightarrow> jsval \<Rightarrow> error + 's) \<Rightarrow> 's \<Rightarrow> error + 's" where
  "overBunch (Arr xs) f s = overList f xs s"
| "overBunch (Str v) f s = Inr s"

text \<open>The string a template literal makes of a value and of a number.\<close>

fun joinWith :: "string \<Rightarrow> string list \<Rightarrow> string" where
  "joinWith sep [] = []"
| "joinWith sep [x] = x"
| "joinWith sep (x # y # ys) = x @ sep @ joinWith sep (y # ys)"

fun jsToString :: "jsval \<Rightarrow> string" where
  "jsToString (Str s) = s"
| "jsToString (Arr xs) = joinWith '','' (map jsToString xs)"

definition quoted :: "string \<Rightarrow> string" where
  "quoted s = CHR 0x22 # s @ [CHR 0x22]"

definition digitChar :: "nat \<Rightarrow> char" where
  "digitChar n = ''0123456789'' ! n"

fun showNat :: "nat \<Rightarrow> string" where
  "showNat n = (if n < 10 then [digitChar n] else showNat (n div 10) @ [digitChar (n mod 10)])"

declare showNat.simps [simp del]

subsection \<open>The four query shapes\<close>

text \<open>
  \<open>createEdgeArray(count, graph, type)\<close>: the scan keeps an edge when
  \<open>((type === 'selfLoops') === (data.source === data.target)) &&
   (!!data.undirected === (type === 'undirected'))\<close>. The loop carries \<open>list\<close> and \<open>nb\<close>.
\<close>

definition matchesType :: "edgeType \<Rightarrow> edgeData \<Rightarrow> bool" where
  "matchesType ty d =
     (((ty = SelfLoops) = (source d = target d)) \<and> (undirected d = (ty = Undirected)))"

definition scanEdges :: "bool \<Rightarrow> edgeType \<Rightarrow> (edge \<times> edgeData) list \<Rightarrow> edge list \<times> nat" where
  "scanEdges count ty es =
     foldl (\<lambda>(list, nb) (edge, d).
              if matchesType ty d
              then (if \<not> count then list @ [edge] else list, nb + 1)
              else (list, nb))
           ([], 0) es"

definition createEdgeArray :: "bool \<Rightarrow> graph \<Rightarrow> edgeType \<Rightarrow> result" where
  "createEdgeArray count g ty =
     (if count \<and> ty = Mixed then Number (Num (graphSize g))
      else if usesMap g
      then (if ty = Mixed then EdgeArray (map fst (edges g))
            else (let (list, nb) = scanEdges count ty (edges g)
                  in if count then Number (Num nb) else EdgeArray list))
      else (if ty = Mixed then EdgeArray (map fst (edges g))
            else (let (list, nb) = scanEdges count ty (edges g)
                  in if count then Number (Num nb) else EdgeArray list)))"

definition countEdges :: "graph \<Rightarrow> bucket option \<Rightarrow> jsval option \<Rightarrow> jsnum" where
  "countEdges g = (if usesMap g then countEdgesFromMap (sets g) else countEdgesFromObject (sets g))"

definition collectEdges :: "graph \<Rightarrow> bucket option \<Rightarrow> jsval option \<Rightarrow> error + edge list" where
  "collectEdges g =
     (if usesMap g then collectEdgesFromMap (sets g) else collectEdgesFromObject (sets g))"

definition mergeEdges :: "graph \<Rightarrow> edge list \<Rightarrow> bucket option \<Rightarrow> error + edge list" where
  "mergeEdges g = (if usesMap g then mergeEdgesFromMap (sets g) else mergeEdgesFromObject (sets g))"

text \<open>
  One read of a bucket by a node or path query: \<open>nb += countEdges(b, key)\<close> when counting,
  \<open>edges = edges.concat(collectEdges(b, key))\<close> otherwise.
\<close>

definition readBucket ::
  "bool \<Rightarrow> graph \<Rightarrow> bucket option \<Rightarrow> jsval option \<Rightarrow> edge list \<times> jsnum \<Rightarrow> error + edge list \<times> jsnum"
  where
  "readBucket count g b key st =
     (if count then Inr (fst st, jsAdd (snd st) (countEdges g b key))
      else bindE (collectEdges g b key) (\<lambda>xs. Inr (fst st @ xs, snd st)))"

definition createEdgeArrayForNode ::
  "bool \<Rightarrow> graph \<Rightarrow> edgeType \<Rightarrow> direction option \<Rightarrow> jsval \<Rightarrow> error + result" where
  "createEdgeArrayForNode count g0 ty dir node =
     (let g = computeIndex g0 in
      case map_of (nodes g) node of
        None \<Rightarrow> Inl TypeError
      | Some nodeData \<Rightarrow>
         bindE (if (ty = Mixed \<or> ty = Directed) \<and> (dir = None \<or> dir = Some DirIn)
                then readBucket count g (inB nodeData) None ([], Num 0)
                else Inr ([], Num 0)) (\<lambda>s1.
         bindE (if (ty = Mixed \<or> ty = Directed) \<and> (dir = None \<or> dir = Some DirOut)
                then readBucket count g (outB nodeData) None s1 else Inr s1) (\<lambda>s2.
         bindE (if (ty = Mixed \<or> ty = Undirected) \<and> (dir = None \<or> dir = Some DirIn)
                then readBucket count g (undirectedInB nodeData) None s2 else Inr s2) (\<lambda>s3.
         bindE (if (ty = Mixed \<or> ty = Undirected) \<and> (dir = None \<or> dir = Some DirOut)
                then readBucket count g (undirectedOutB nodeData) None s3 else Inr s3) (\<lambda>s4.
         Inr (if count then Number (snd s4) else EdgeArray (fst s4)))))))"

definition bunchStep ::
  "string \<Rightarrow> graph \<Rightarrow> edgeType \<Rightarrow> direction option \<Rightarrow> edge list \<Rightarrow> jsval \<Rightarrow> error + edge list" where
  "bunchStep nm g ty dir acc node =
     (if \<not> hasNode g node
      then Inl (NotFoundGraphError
             (''Graph.'' @ nm @ '': could not find the '' @ quoted (jsToString node) @
              '' node in the graph in the given bunch.''))
      else case map_of (nodes g) node of
        None \<Rightarrow> Inl TypeError
      | Some nodeData \<Rightarrow>
         bindE (if (ty = Mixed \<or> ty = Directed) \<and> (dir = None \<or> dir = Some DirIn)
                then mergeEdges g acc (inB nodeData) else Inr acc) (\<lambda>s1.
         bindE (if (ty = Mixed \<or> ty = Directed) \<and> (dir = None \<or> dir = Some DirOut)
                then mergeEdges g s1 (outB nodeData) else Inr s1) (\<lambda>s2.
         bindE (if (ty = Mixed \<or> ty = Undirected) \<and> (dir = None \<or> dir = Some DirIn)
                then mergeEdges g s2 (undirectedInB nodeData) else Inr s2) (\<lambda>s3.
         if (ty = Mixed \<or> ty = Undirected) \<and> (dir = None \<or> dir = Some DirOut)
         then mergeEdges g s3 (undirectedOutB nodeData) else Inr s3))))"

definition createEdgeArrayForBunch ::
  "string \<Rightarrow> graph \<Rightarrow> edgeType \<Rightarrow> direction option \<Rightarrow> jsval \<Rightarrow> error + edge list" where
  "createEdgeArrayForBunch nm g0 ty dir bunch =
     (let g = computeIndex g0 in overBunch bunch (bunchStep nm g ty dir) [])"

definition createEdgeArrayForPath ::
  "bool \<Rightarrow> graph \<Rightarrow> edgeType \<Rightarrow> jsval \<Rightarrow> jsval \<Rightarrow> error + result" where
  "createEdgeArrayForPath count g0 ty src tgt =
     (let g = computeIndex g0 in
      case map_of (nodes g) src of
        None \<Rightarrow> Inl TypeError
      | Some sourceData \<Rightarrow>
         bindE (if ty = Mixed \<or> ty = Directed
                then bindE (readBucket count g (inB sourceData) (Some tgt) ([], Num 0))
                       (readBucket count g (outB sourceData) (Some tgt))
                else Inr ([], Num 0)) (\<lambda>s2.
         bindE (if ty = Mixed \<or> ty = Undirected
                then bindE (readBucket count g (undirectedInB sourceData) (Some tgt) s2)
                       (readBucket count g (undirectedOutB sourceData) (Some tgt))
                else Inr s2) (\<lambda>s4.
         Inr (if count then Number (snd s4) else EdgeArray (fst s4)))))"

subsection \<open>The entry points\<close>

text \<open>
  \<open>attachEdgeArrayCreator(Class, counter, description)\<close> installs one method; the model
  is that method, as a function of the graph and of the argument list.
\<close>

definition attachEdgeArrayCreator ::
  "bool \<Rightarrow> description \<Rightarrow> graph \<Rightarrow> jsval list \<Rightarrow> error + result" where
  "attachEdgeArrayCreator cnt desc g args =
     (let nm = (if cnt then counter desc else name desc) in
      case args of
        [] \<Rightarrow> Inr (createEdgeArray cnt g (type desc))
      | [nodeOrBunch] \<Rightarrow>
          if hasNode g nodeOrBunch
          then createEdgeArrayForNode cnt g (type desc) (direction desc) nodeOrBunch
          else if isBunch nodeOrBunch
          then bindE (createEdgeArrayForBunch nm g (type desc) (direction desc) nodeOrBunch)
                 (\<lambda>es. Inr (if cnt then Number (Num (length es)) else EdgeArray es))
          else Inl (NotFoundGraphError
                 (''Graph.'' @ nm @ '': could not find the '' @ quoted (jsToString nodeOrBunch) @
                  '' node in the graph.''))
      | [src, tgt] \<Rightarrow>
          if \<not> hasNode g src
          then Inl (NotFoundGraphError
                 (''Graph.'' @ nm @ '':  could not find the '' @ quoted (jsToString src) @
                  '' source node in the graph.''))
          else if \<not> hasNode g tgt
          then Inl (NotFoundGraphError
                 (''Graph.'' @ nm @ '':  could not find the '' @ quoted (jsToString tgt) @
                  '' target node in the graph.''))
          else if \<not> (if type desc = Mixed \<or> type desc = Directed
                      then hasDirectedEdge g src tgt else hasUndirectedEdge g src tgt)
          then Inr (if cnt then Number (Num 0) else EdgeArray [])
          else createEdgeArrayForPath cnt g (type desc) src tgt
      | _ \<Rightarrow>
          Inl (InvalidArgumentsGraphError
                 (''Graph.'' @ nm @ '': too many arguments (expecting 0, 1 or 2 and got '' @
                  showNat (length args) @ '').'')))"

text \<open>Reading a decimal numeral back, to say what a message reports.\<close>

definition digitValue :: "char \<Rightarrow> nat" where
  "digitValue c = of_char c - 48"

definition readNat :: "string \<Rightarrow> nat" where
  "readNat s = foldl (\<lambda>a c. 10 * a + digitValue c) 0 s"

subsection \<open>The mutation API around the hooks\<close>

text \<open>
  Modelled from the spec: the constructor and the mutation API of \<open>Graph\<close> are not in the
  sources. A new graph has its nodes, no edge and no bucket (buckets are created lazily).
  Adding an edge records it in the canonical edge store and calls \<open>onEdgeAdded\<close>, which is
  \<open>updateStructureIndex\<close>; dropping an edge removes it from the store and calls
  \<open>onEdgeRemoved\<close>, which is \<open>clearEdgeFromStructureIndex\<close>.
\<close>

definition emptyNode :: nodeData where
  "emptyNode = \<lparr>inB = None, outB = None, undirectedInB = None, undirectedOutB = None\<rparr>"

definition newGraph :: "bool \<Rightarrow> bool \<Rightarrow> jsval list \<Rightarrow> graph" where
  "newGraph m um ks =
     \<lparr>multi = m, usesMap = um, nodes = map (\<lambda>k. (k, emptyNode)) ks, edges = [], sets = []\<rparr>"


definition dropEdge :: "graph \<Rightarrow> edge \<Rightarrow> edgeData \<Rightarrow> error + graph" where
  "dropEdge g e d = clearEdgeFromStructureIndex (g\<lparr>edges := AList.delete e (edges g)\<rparr>) e d"

text \<open>The eight families, by name.\<close>

definition edgesFamily :: description where "edgesFamily = EDGES_ITERATION ! 0"
definition inEdgesFamily :: description where "inEdgesFamily = EDGES_ITERATION ! 1"
definition outEdgesFamily :: description where "outEdgesFamily = EDGES_ITERATION ! 2"
definition inboundEdgesFamily :: description where "inboundEdgesFamily = EDGES_ITERATION ! 3"
definition outboundEdgesFamily :: description where "outboundEdgesFamily = EDGES_ITERATION ! 4"
definition directedEdgesFamily :: description where "directedEdgesFamily = EDGES_ITERATION ! 5"
definition undirectedEdgesFamily :: description where "undirectedEdgesFamily = EDGES_ITERATION ! 6"
definition selfLoopsFamily :: description where "selfLoopsFamily = EDGES_ITERATION ! 7"

subsection \<open>Reading the index, and the index states the hooks produce\<close>

text \<open>
  \<open>bucketOf g k x\<close> is the bucket \<open>k\<close> of node \<open>x\<close> (empty when the node or the bucket is
  missing) and \<open>entryAt g k x y\<close> its entry for the neighbour \<open>y\<close>.
\<close>

definition bucketOf :: "graph \<Rightarrow> bucketKey \<Rightarrow> jsval \<Rightarrow> bucket" where
  "bucketOf g k x = (case map_of (nodes g) x of None \<Rightarrow> [] | Some nd \<Rightarrow> orEmpty (getBucket k nd))"

definition entryAt :: "graph \<Rightarrow> bucketKey \<Rightarrow> jsval \<Rightarrow> jsval \<Rightarrow> entry option" where
  "entryAt g k x y = map_of (bucketOf g k x) y"

text \<open>
  The index states that arise: a new graph has no bucket and no set; from there only the
  two hooks change the index, and the canonical edge store changes beside it.
\<close>

inductive reachable :: "graph \<Rightarrow> bool" where
  fresh: "reachable (newGraph m um ks)"
| inserted: "reachable g \<Longrightarrow> updateStructureIndex g e d = Inr g' \<Longrightarrow> reachable g'"
| cleared: "reachable g \<Longrightarrow> clearEdgeFromStructureIndex g e d = Inr g' \<Longrightarrow> reachable g'"
| stored: "reachable g \<Longrightarrow> reachable (g\<lparr>edges := es\<rparr>)"

text \<open>
  The edges a node query reads from one bucket, in bucket order, and the properties of the
  index that the hooks maintain in a multigraph: keys and set references are not repeated
  within a bucket, every entry refers to a set of the store, the two endpoints of a pair
  hold the same entry, and no in-bucket has an entry for its own node.
\<close>

definition edgesIn :: "graph \<Rightarrow> bucketKey \<Rightarrow> jsval \<Rightarrow> edge list" where
  "edgesIn g k x = concat (map (\<lambda>(y, v). arrayFrom (sets g) v) (bucketOf g k x))"

definition keysDistinct :: "graph \<Rightarrow> bool" where
  "keysDistinct g = (\<forall>k x. distinct (map fst (bucketOf g k x)))"

definition refsValid :: "graph \<Rightarrow> bool" where
  "refsValid g =
     (\<forall>k x y v. (y, v) \<in> set (bucketOf g k x) \<longrightarrow> (\<exists>a. v = SetRef a \<and> a < length (sets g)))"

definition refsDistinct :: "graph \<Rightarrow> bool" where
  "refsDistinct g = (\<forall>k x. distinct (map snd (bucketOf g k x)))"

definition entriesShared :: "graph \<Rightarrow> bool" where
  "entriesShared g =
     (\<forall>x y. x \<noteq> y \<longrightarrow>
        entryAt g KeyOut x y = entryAt g KeyIn y x \<and>
        entryAt g KeyUndirectedOut x y = entryAt g KeyUndirectedIn y x)"

definition noSelfIn :: "graph \<Rightarrow> bool" where
  "noSelfIn g = (\<forall>x. entryAt g KeyIn x x = None \<and> entryAt g KeyUndirectedIn x x = None)"

definition outRefsUnique :: "graph \<Rightarrow> bool" where
  "outRefsUnique g =
     (\<forall>k k' x x' y y' v.
        (k = KeyOut \<or> k = KeyUndirectedOut) \<and> (k' = KeyOut \<or> k' = KeyUndirectedOut) \<and>
        entryAt g k x y = Some v \<and> entryAt g k' x' y' = Some v \<longrightarrow>
        k = k' \<and> x = x' \<and> y = y')"

definition setsDistinct :: "graph \<Rightarrow> bool" where
  "setsDistinct g = (\<forall>xs \<in> set (sets g). distinct xs)"

definition wellIndexed :: "graph \<Rightarrow> bool" where
  "wellIndexed g =
     (keysDistinct g \<and> refsValid g \<and> refsDistinct g \<and> entriesShared g \<and> noSelfIn g \<and>
      outRefsUnique g \<and> setsDistinct g)"

text \<open>
  Which buckets a node or bunch query of a given type and direction reads, and the edges a
  node query collects from them, in the order the code reads them.
\<close>

fun reads :: "edgeType \<Rightarrow> direction option \<Rightarrow> bucketKey \<Rightarrow> bool" where
  "reads ty dir KeyIn = ((ty = Mixed \<or> ty = Directed) \<and> (dir = None \<or> dir = Some DirIn))"
| "reads ty dir KeyOut = ((ty = Mixed \<or> ty = Directed) \<and> (dir = None \<or> dir = Some DirOut))"
| "reads ty dir KeyUndirectedIn =
     ((ty = Mixed \<or> ty = Undirected) \<and> (dir = None \<or> dir = Some DirIn))"
| "reads ty dir KeyUndirectedOut =
     ((ty = Mixed \<or> ty = Undirected) \<and> (dir = None \<or> dir = Some DirOut))"

definition nodeEdges :: "graph \<Rightarrow> edgeType \<Rightarrow> direction option \<Rightarrow> jsval \<Rightarrow> edge list" where
  "nodeEdges g ty dir x =
     concat (map (\<lambda>k. if reads ty dir k then edgesIn g k x else [])
               [KeyIn, KeyOut, KeyUndirectedIn, KeyUndirectedOut])"



text \<open>A bucket whose entries are all set references.\<close>

definition allRefs :: "bucket \<Rightarrow> bool" where
  "allRefs b = (\<forall>(y, v) \<in> set b. \<exists>a. v = SetRef a)"

section \<open>Verified properties\<close>

subsection \<open>Decimal rendering\<close>

lemma digitValue_digitChar: "d < 10 \<Longrightarrow> digitValue (digitChar d) = d"
proof -
  assume "d < 10"
  then have "d \<in> {0, 1, 2, 3, 4, 5, 6, 7, 8, 9}" by auto
  then show ?thesis
    by (auto simp: digitValue_def digitChar_def)
qed

lemma readNat_snoc: "readNat (s @ [c]) = 10 * readNat s + digitValue c"
  by (simp add: readNat_def)

lemma readNat_showNat: "readNat (showNat n) = n"
proof (induction n rule: showNat.induct)
  case (1 n)
  show ?case
  proof (cases "n < 10")
    case True
    then show ?thesis by (subst showNat.simps) (simp add: readNat_def digitValue_digitChar)
  next
    case False
    then have "readNat (showNat n) =
        10 * readNat (showNat (n div 10)) + digitValue (digitChar (n mod 10))"
      by (subst showNat.simps) (simp add: readNat_snoc)
    with False 1 show ?thesis by (simp add: digitValue_digitChar)
  qed
qed

lemma showNat_three: "showNat (Suc (Suc (Suc 0))) = ''3''"
  by (simp add: showNat.simps digitChar_def)

subsection \<open>Too many arguments\<close>

text \<open>
  C9. Every entry point (any description, collecting or counting) called with more than two
  arguments raises InvalidArguments. The message names the method, gives the expected
  arities 0, 1 or 2, and ends with the number of arguments received in decimal, from which
  the count is read back; with three arguments it reads "got 3".
\<close>

theorem too_many_arguments:
  assumes "2 < length args"
  shows "attachEdgeArrayCreator cnt desc g args =
           Inl (InvalidArgumentsGraphError
                  (''Graph.'' @ (if cnt then counter desc else name desc) @
                   '': too many arguments (expecting 0, 1 or 2 and got '' @
                   showNat (length args) @ '').''))
         \<and> readNat (showNat (length args)) = length args
         \<and> (length args = 3 \<longrightarrow>
              attachEdgeArrayCreator cnt desc g args =
                Inl (InvalidArgumentsGraphError
                       (''Graph.'' @ (if cnt then counter desc else name desc) @
                        '': too many arguments (expecting 0, 1 or 2 and got 3).'')))"
proof -
  obtain a b c rest where "args = a # b # c # rest"
    using assms by (cases args; cases "tl args"; cases "tl (tl args)") auto
  then show ?thesis
    by (simp add: attachEdgeArrayCreator_def readNat_showNat showNat_three)
qed

theorem too_many_arguments_witness:
  "attachEdgeArrayCreator True (EDGES_ITERATION ! 2)
      \<lparr>multi = False, usesMap = True, nodes = [], edges = [], sets = []\<rparr>
      [Str ''A'', Str ''B'', Str ''C''] =
     Inl (InvalidArgumentsGraphError
           ''Graph.countOutEdges: too many arguments (expecting 0, 1 or 2 and got 3).'')"
proof -
  have h: "2 < length [Str ''A'', Str ''B'', Str ''C'']" by simp
  from too_many_arguments [OF h, of True "EDGES_ITERATION ! 2"
      "\<lparr>multi = False, usesMap = True, nodes = [], edges = [], sets = []\<rparr>"]
  show ?thesis by (simp add: EDGES_ITERATION_def showNat_three)
qed

subsection \<open>The index of a multigraph\<close>

lemma getBucket_setBucket:
  "getBucket k' (setBucket k b nd) = (if k' = k then Some b else getBucket k' nd)"
  by (cases k; cases k') simp_all

lemma outKey_neq_inKey [simp]: "outKey u \<noteq> inKey u'" "inKey u' \<noteq> outKey u"
  by (simp_all add: outKey_def inKey_def)

lemma bucketOf_nodes_update:
  "bucketOf (g\<lparr>nodes := AList.update x (setBucket k b nd) (nodes g)\<rparr>) k' x' =
     (if x' = x then (if k' = k then b else orEmpty (getBucket k' nd)) else bucketOf g k' x')"
  by (simp add: bucketOf_def update_conv' getBucket_setBucket orEmpty_def)

lemma bucketOf_sets_update [simp]: "bucketOf (g\<lparr>sets := h\<rparr>) k x = bucketOf g k x"
  by (simp add: bucketOf_def)

lemma bucketOf_edges_update [simp]: "bucketOf (g\<lparr>edges := h\<rparr>) k x = bucketOf g k x"
  by (simp add: bucketOf_def)

text \<open>What an insertion into a multigraph does to the buckets and to the store.\<close>

lemma updateStructureIndex_multi:
  assumes "multi g" and "updateStructureIndex g e d = Inr g'"
  defines "ok \<equiv> outKey (undirected d)" and "ik \<equiv> inKey (undirected d)"
  defines "b0 \<equiv> bucketOf g ok (source d)" and "c0 \<equiv> bucketOf g ik (target d)"
  defines "v \<equiv> (case map_of b0 (target d) of Some w \<Rightarrow> w | None \<Rightarrow> SetRef (length (sets g)))"
  defines "h1 \<equiv> (if map_of b0 (target d) = None then sets g @ [[]] else sets g)"
  shows "\<exists>a. v = SetRef a \<and> sets g' = h1[a := setAdd e (members h1 a)]"
    and "bucketOf g' k x =
          (if k = ok \<and> x = source d
           then (if map_of b0 (target d) = None then b0 @ [(target d, v)] else b0)
           else if source d \<noteq> target d \<and> k = ik \<and> x = target d
           then (if map_of c0 (source d) = None then c0 @ [(source d, v)] else c0)
           else bucketOf g k x)"
    and "multi g'" and "usesMap g' = usesMap g" and "edges g' = edges g"
    and "hasNode g' = hasNode g" and "hasNode g (source d)"
    and "source d \<noteq> target d \<Longrightarrow> hasNode g (target d)"
proof -
  from assms(2) obtain sd where sd: "map_of (nodes g) (source d) = Some sd"
    by (auto simp: updateStructureIndex_def split: option.splits)
  have mg: "multi g = True" using assms(1) by simp
  have b0: "orEmpty (getBucket ok sd) = b0"
    by (simp add: b0_def bucketOf_def sd)
  have v: "(case map_of b0 (target d) of None \<Rightarrow> SetRef (length (sets g)) | Some w \<Rightarrow> w) = v"
    by (simp add: v_def)
  have h1: "(if map_of b0 (target d) = None \<and> True then sets g @ [[]] else sets g) = h1"
    by (simp add: h1_def)
  note s0 = assms(2)[unfolded updateStructureIndex_def Let_def sd option.case mg if_True]
  note s1 = s0[folded ok_def ik_def]
  note s2 = s1[unfolded b0]
  note s3 = s2[unfolded v h1]
  from s3 obtain a where a: "v = SetRef a"
    by (cases v) auto
  define b1 where "b1 = (if map_of b0 (target d) = None then b0 @ [(target d, v)] else b0)"
  define g1 where "g1 = g\<lparr>nodes := AList.update (source d) (setBucket ok b1 sd) (nodes g),
                          sets := h1[a := setAdd e (members h1 a)]\<rparr>"
  have step: "(if source d = target d then Inr g1
        else (case map_of (nodes g) (target d) of
                None \<Rightarrow> Inl TypeError
              | Some targetData \<Rightarrow>
                  Inr (g1\<lparr>nodes := AList.update (target d)
                             (setBucket ik (if map_of (orEmpty (getBucket ik targetData)) (source d) = None
                                 then orEmpty (getBucket ik targetData) @ [(source d, v)]
                                 else orEmpty (getBucket ik targetData)) targetData) (nodes g1)\<rparr>))) = Inr g'"
    using s3 unfolding a entry.case sum.case b1_def g1_def by simp
  show "\<exists>a. v = SetRef a \<and> sets g' = h1[a := setAdd e (members h1 a)]"
    using step a by (auto simp: g1_def Let_def split: if_splits option.splits)
  show "multi g'" using step assms(1) by (auto simp: g1_def Let_def split: if_splits option.splits)
  show "usesMap g' = usesMap g" using step by (auto simp: g1_def Let_def split: if_splits option.splits)
  show "edges g' = edges g" using step by (auto simp: g1_def Let_def split: if_splits option.splits)
  show "hasNode g (source d)" by (simp add: hasNode_def sd)
  show "source d \<noteq> target d \<Longrightarrow> hasNode g (target d)"
    using step by (auto simp: hasNode_def split: option.splits)
  show "hasNode g' = hasNode g"
    using step sd
    by (auto simp: g1_def Let_def hasNode_def fun_eq_iff update_conv' split: if_splits option.splits)
  have bs: "\<And>k. orEmpty (getBucket k sd) = bucketOf g k (source d)"
    by (simp add: bucketOf_def sd)
  have g1b: "\<And>k x. bucketOf g1 k x =
      (if x = source d then (if k = ok then b1 else bucketOf g k (source d)) else bucketOf g k x)"
    by (simp add: g1_def bucketOf_nodes_update bs)
  show "bucketOf g' k x =
          (if k = ok \<and> x = source d
           then (if map_of b0 (target d) = None then b0 @ [(target d, v)] else b0)
           else if source d \<noteq> target d \<and> k = ik \<and> x = target d
           then (if map_of c0 (source d) = None then c0 @ [(source d, v)] else c0)
           else bucketOf g k x)"
  proof (cases "source d = target d")
    case True
    with step have "g' = g1" by simp
    then show ?thesis
      using True by (simp add: g1b b1_def)
  next
    case False
    with step obtain td where td: "map_of (nodes g) (target d) = Some td"
      by (auto split: option.splits)
    have bt: "\<And>k. orEmpty (getBucket k td) = bucketOf g k (target d)"
      by (simp add: bucketOf_def td)
    define c1 where "c1 = (if map_of c0 (source d) = None then c0 @ [(source d, v)] else c0)"
    from step False td
    have g': "g' = g1\<lparr>nodes := AList.update (target d) (setBucket ik c1 td) (nodes g1)\<rparr>"
      by (auto simp: c1_def bt c0_def split: if_splits)
    have "bucketOf g' k x =
        (if x = target d then (if k = ik then c1 else orEmpty (getBucket k td))
         else bucketOf g1 k x)"
      by (simp only: g' bucketOf_nodes_update)
    then show ?thesis
      using False by (auto simp: g1b bt b1_def c1_def ok_def ik_def)
  qed
qed

lemma setBucket_same: "getBucket k nd = Some b \<Longrightarrow> setBucket k b nd = nd"
  by (cases k) simp_all

lemma bucketOf_cong_nodes:
  "map_of (nodes g') = map_of (nodes g) \<Longrightarrow> bucketOf g' k x = bucketOf g k x"
  by (simp add: bucketOf_def)

text \<open>A removal from a multigraph only takes the edge out of the set on the source side.\<close>

lemma clearEdgeFromStructureIndex_multi:
  assumes "multi g" and "clearEdgeFromStructureIndex g e d = Inr g'"
  shows "bucketOf g' k x = bucketOf g k x"
    and "sets g' = (case entryAt g (outKey (undirected d)) (source d) (target d) of
                      Some (SetRef a) \<Rightarrow> (sets g)[a := setDelete e (members (sets g) a)]
                    | _ \<Rightarrow> sets g)"
    and "multi g'" and "usesMap g' = usesMap g" and "edges g' = edges g"
    and "hasNode g' = hasNode g"
proof -
  from assms(2) obtain sd where sd: "map_of (nodes g) (source d) = Some sd"
    by (auto simp: clearEdgeFromStructureIndex_def split: option.splits)
  from assms(2) sd obtain si where si: "getBucket (outKey (undirected d)) sd = Some si"
    by (auto simp: clearEdgeFromStructureIndex_def split: option.splits)
  have ent: "entryAt g (outKey (undirected d)) (source d) (target d) = map_of si (target d)"
    by (simp add: entryAt_def bucketOf_def sd si orEmpty_def)
  have upd: "AList.update (source d) (setBucket (outKey (undirected d)) si sd) (nodes g) = nodes g"
    by (simp add: setBucket_same si sd update_triv)
  have g': "g' = g\<lparr>sets := (case map_of si (target d) of
                      Some (SetRef a) \<Rightarrow> (sets g)[a := setDelete e (members (sets g) a)]
                    | _ \<Rightarrow> sets g)\<rparr>"
    using assms
    by (auto simp: clearEdgeFromStructureIndex_def sd si upd split: option.splits entry.splits)
  show "bucketOf g' k x = bucketOf g k x" by (simp add: g')
  show "sets g' = (case entryAt g (outKey (undirected d)) (source d) (target d) of
                      Some (SetRef a) \<Rightarrow> (sets g)[a := setDelete e (members (sets g) a)]
                    | _ \<Rightarrow> sets g)"
    by (simp add: g' ent)
  show "multi g'" using assms(1) by (simp add: g')
  show "usesMap g' = usesMap g" by (simp add: g')
  show "edges g' = edges g" by (simp add: g')
  show "hasNode g' = hasNode g" by (simp add: g' hasNode_def fun_eq_iff)
qed

lemma outKey_cases: "outKey u = KeyOut \<and> inKey u = KeyIn \<or> outKey u = KeyUndirectedOut \<and> inKey u = KeyUndirectedIn"
  by (simp add: outKey_def inKey_def)

lemma entriesSharedD:
  "entriesShared g \<Longrightarrow> x \<noteq> y \<Longrightarrow> entryAt g (outKey u) x y = entryAt g (inKey u) y x"
  by (auto simp: entriesShared_def outKey_def inKey_def)

lemma map_of_snoc:
  "map_of (b @ [(k, v)]) y = (case map_of b y of Some w \<Rightarrow> Some w | None \<Rightarrow> if y = k then Some v else None)"
  by (simp add: map_add_def split: option.splits)

text \<open>The entries after an insertion into a multigraph whose endpoints share their entries.\<close>

lemma entryAt_inserted:
  assumes "multi g" and "updateStructureIndex g e d = Inr g'" and "entriesShared g"
  defines "v \<equiv> (case entryAt g (outKey (undirected d)) (source d) (target d) of
                  Some w \<Rightarrow> w | None \<Rightarrow> SetRef (length (sets g)))"
  shows "entryAt g' k x y =
          (if (k = outKey (undirected d) \<and> x = source d \<and> y = target d) \<or>
              (source d \<noteq> target d \<and> k = inKey (undirected d) \<and> x = target d \<and> y = source d)
           then Some v else entryAt g k x y)"
proof -
  note b = updateStructureIndex_multi(2)[OF assms(1,2), of k x]
  have sh: "source d \<noteq> target d \<Longrightarrow>
      map_of (bucketOf g (inKey (undirected d)) (target d)) (source d) =
      map_of (bucketOf g (outKey (undirected d)) (source d)) (target d)"
    using entriesSharedD[OF assms(3), of "source d" "target d" "undirected d"]
    by (simp add: entryAt_def)
  show ?thesis
    unfolding entryAt_def b v_def
    by (auto simp: map_add_def sh split: option.splits)
qed

lemma refsValid_entry:
  "refsValid g \<Longrightarrow> entryAt g k x y = Some v \<Longrightarrow> \<exists>a. v = SetRef a \<and> a < length (sets g)"
  unfolding refsValid_def entryAt_def by (blast dest: map_of_SomeD)

lemma members_append_new: "members (h @ [[]]) (length h) = []"
  by (simp add: members_def)

text \<open>
  Everything the invariants need to know about an insertion into a multigraph: the
  reference \<open>a\<close> stored for the pair, the entries, the buckets as lists and the store.
\<close>

lemma insertion_facts:
  assumes "multi g" and "updateStructureIndex g e d = Inr g'"
    and "refsValid g" and "entriesShared g"
  obtains a where
    "\<And>k x y. entryAt g' k x y =
        (if (k = outKey (undirected d) \<and> x = source d \<and> y = target d) \<or>
            (source d \<noteq> target d \<and> k = inKey (undirected d) \<and> x = target d \<and> y = source d)
         then Some (SetRef a) else entryAt g k x y)"
    and "\<And>k x. bucketOf g' k x = bucketOf g k x \<or>
          (\<exists>y. bucketOf g' k x = bucketOf g k x @ [(y, SetRef a)] \<and>
               map_of (bucketOf g k x) y = None \<and> a = length (sets g))"
    and "entryAt g (outKey (undirected d)) (source d) (target d) = None \<Longrightarrow>
          a = length (sets g) \<and> sets g' = sets g @ [[e]]"
    and "entryAt g (outKey (undirected d)) (source d) (target d) \<noteq> None \<Longrightarrow>
          entryAt g (outKey (undirected d)) (source d) (target d) = Some (SetRef a) \<and>
          a < length (sets g) \<and> sets g' = (sets g)[a := setAdd e (sets g ! a)]"
proof -
  define ok where "ok = outKey (undirected d)"
  define ik where "ik = inKey (undirected d)"
  define v where "v = (case entryAt g ok (source d) (target d) of
                  Some w \<Rightarrow> w | None \<Rightarrow> SetRef (length (sets g)))"
  define h1 where "h1 = (if entryAt g ok (source d) (target d) = None then sets g @ [[]] else sets g)"
  from updateStructureIndex_multi(1)[OF assms(1,2)]
  obtain a where a: "v = SetRef a" and s: "sets g' = h1[a := setAdd e (members h1 a)]"
    by (auto simp: v_def h1_def ok_def entryAt_def)
  have none: "entryAt g ok (source d) (target d) = None \<Longrightarrow> a = length (sets g)"
    using a by (simp add: v_def)
  have some: "entryAt g ok (source d) (target d) \<noteq> None \<Longrightarrow>
      entryAt g ok (source d) (target d) = Some (SetRef a) \<and> a < length (sets g)"
    using a refsValid_entry[OF assms(3), of ok "source d" "target d"]
    by (auto simp: v_def)
  have sh: "source d \<noteq> target d \<Longrightarrow>
      entryAt g ik (target d) (source d) = entryAt g ok (source d) (target d)"
    using entriesSharedD[OF assms(4), of "source d" "target d" "undirected d"]
    by (simp add: ok_def ik_def)
  show ?thesis
  proof (rule that[of a])
    fix k x y
    show "entryAt g' k x y =
        (if (k = outKey (undirected d) \<and> x = source d \<and> y = target d) \<or>
            (source d \<noteq> target d \<and> k = inKey (undirected d) \<and> x = target d \<and> y = source d)
         then Some (SetRef a) else entryAt g k x y)"
      using entryAt_inserted[OF assms(1,2,4), of k x y] a
      by (simp add: v_def ok_def)
  next
    fix k x
    show "bucketOf g' k x = bucketOf g k x \<or>
          (\<exists>y. bucketOf g' k x = bucketOf g k x @ [(y, SetRef a)] \<and>
               map_of (bucketOf g k x) y = None \<and> a = length (sets g))"
      using updateStructureIndex_multi(2)[OF assms(1,2), of k x] a none sh
      by (auto simp: v_def ok_def ik_def entryAt_def split: if_splits option.splits)
  next
    assume n: "entryAt g (outKey (undirected d)) (source d) (target d) = None"
    then show "a = length (sets g) \<and> sets g' = sets g @ [[e]]"
      using none s by (simp add: ok_def h1_def members_append_new setAdd_def)
  next
    assume n: "entryAt g (outKey (undirected d)) (source d) (target d) \<noteq> None"
    then show "entryAt g (outKey (undirected d)) (source d) (target d) = Some (SetRef a) \<and>
          a < length (sets g) \<and> sets g' = (sets g)[a := setAdd e (sets g ! a)]"
      using some s by (auto simp: ok_def h1_def members_def)
  qed
qed

lemma updateStructureIndex_flags:
  assumes "updateStructureIndex g e d = Inr g'"
  shows "multi g' = multi g"
  using assms
  by (auto simp: updateStructureIndex_def Let_def split: option.splits sum.splits if_splits entry.splits)

lemma clearEdgeFromStructureIndex_flags:
  assumes "clearEdgeFromStructureIndex g e d = Inr g'"
  shows "multi g' = multi g"
  using assms
  by (auto simp: clearEdgeFromStructureIndex_def Let_def
      split: option.splits sum.splits if_splits entry.splits prod.splits)

lemma distinct_setAdd: "distinct xs \<Longrightarrow> distinct (setAdd e xs)"
  by (simp add: setAdd_def)

lemma distinct_setDelete: "distinct xs \<Longrightarrow> distinct (setDelete e xs)"
  by (simp add: setDelete_def distinct_removeAll)

lemma wellIndexed_inserted:
  assumes m: "multi g" and u: "updateStructureIndex g e d = Inr g'" and w: "wellIndexed g"
  shows "wellIndexed g'"
proof -
  from w have kd: "keysDistinct g" and rv: "refsValid g" and rd: "refsDistinct g"
    and es: "entriesShared g" and ns: "noSelfIn g" and ou: "outRefsUnique g"
    and sd: "setsDistinct g"
    by (simp_all add: wellIndexed_def)
  from insertion_facts[OF m u rv es] obtain a where
    ent: "\<And>k x y. entryAt g' k x y =
        (if (k = outKey (undirected d) \<and> x = source d \<and> y = target d) \<or>
            (source d \<noteq> target d \<and> k = inKey (undirected d) \<and> x = target d \<and> y = source d)
         then Some (SetRef a) else entryAt g k x y)"
    and bk: "\<And>k x. bucketOf g' k x = bucketOf g k x \<or>
          (\<exists>y. bucketOf g' k x = bucketOf g k x @ [(y, SetRef a)] \<and>
               map_of (bucketOf g k x) y = None \<and> a = length (sets g))"
    and new: "entryAt g (outKey (undirected d)) (source d) (target d) = None \<Longrightarrow>
          a = length (sets g) \<and> sets g' = sets g @ [[e]]"
    and old: "entryAt g (outKey (undirected d)) (source d) (target d) \<noteq> None \<Longrightarrow>
          entryAt g (outKey (undirected d)) (source d) (target d) = Some (SetRef a) \<and>
          a < length (sets g) \<and> sets g' = (sets g)[a := setAdd e (sets g ! a)]"
    by blast
  have len: "length (sets g) \<le> length (sets g')" and a_lt: "a < length (sets g')"
    using new old by (cases "entryAt g (outKey (undirected d)) (source d) (target d)"; auto)+
  have "keysDistinct g'"
    unfolding keysDistinct_def
  proof (intro allI)
    fix k x
    from kd have "distinct (map fst (bucketOf g k x))" by (simp add: keysDistinct_def)
    with bk[of k x] show "distinct (map fst (bucketOf g' k x))"
      by (auto simp: map_of_eq_None_iff)
  qed
  moreover have "refsValid g'"
    unfolding refsValid_def
  proof (intro allI impI)
    fix k x y v
    assume "(y, v) \<in> set (bucketOf g' k x)"
    with bk[of k x] consider "(y, v) \<in> set (bucketOf g k x)" | "v = SetRef a" by auto
    then show "\<exists>a. v = SetRef a \<and> a < length (sets g')"
    proof cases
      case 1
      with rv obtain a' where "v = SetRef a'" "a' < length (sets g)"
        unfolding refsValid_def by blast
      with len show ?thesis by auto
    next
      case 2
      with a_lt show ?thesis by simp
    qed
  qed
  moreover have "refsDistinct g'"
    unfolding refsDistinct_def
  proof (intro allI)
    fix k x
    from rd have d0: "distinct (map snd (bucketOf g k x))" by (simp add: refsDistinct_def)
    have "SetRef (length (sets g)) \<notin> snd ` set (bucketOf g k x)"
    proof
      assume "SetRef (length (sets g)) \<in> snd ` set (bucketOf g k x)"
      then obtain y where "(y, SetRef (length (sets g))) \<in> set (bucketOf g k x)" by auto
      with rv obtain a' where "SetRef (length (sets g)) = SetRef a'" "a' < length (sets g)"
        unfolding refsValid_def by blast
      then show False by simp
    qed
    with bk[of k x] d0 show "distinct (map snd (bucketOf g' k x))" by auto
  qed
  moreover have "entriesShared g'"
    unfolding entriesShared_def
  proof (intro allI impI)
    fix x y :: jsval
    assume xy: "x \<noteq> y"
    with es have o: "entryAt g KeyOut x y = entryAt g KeyIn y x"
      "entryAt g KeyUndirectedOut x y = entryAt g KeyUndirectedIn y x"
      unfolding entriesShared_def by auto
    show "entryAt g' KeyOut x y = entryAt g' KeyIn y x \<and>
          entryAt g' KeyUndirectedOut x y = entryAt g' KeyUndirectedIn y x"
    proof (cases "undirected d")
      case True
      then have k: "outKey (undirected d) = KeyUndirectedOut"
        "inKey (undirected d) = KeyUndirectedIn"
        by (simp_all add: outKey_def inKey_def)
      show ?thesis unfolding ent k using o xy by auto
    next
      case False
      then have k: "outKey (undirected d) = KeyOut" "inKey (undirected d) = KeyIn"
        by (simp_all add: outKey_def inKey_def)
      show ?thesis unfolding ent k using o xy by auto
    qed
  qed
  moreover have "noSelfIn g'"
    unfolding noSelfIn_def
  proof (intro allI)
    fix x
    from ns have o: "entryAt g KeyIn x x = None" "entryAt g KeyUndirectedIn x x = None"
      unfolding noSelfIn_def by auto
    show "entryAt g' KeyIn x x = None \<and> entryAt g' KeyUndirectedIn x x = None"
    proof (cases "undirected d")
      case True
      then have k: "outKey (undirected d) = KeyUndirectedOut"
        "inKey (undirected d) = KeyUndirectedIn"
        by (simp_all add: outKey_def inKey_def)
      show ?thesis unfolding ent k using o by auto
    next
      case False
      then have k: "outKey (undirected d) = KeyOut" "inKey (undirected d) = KeyIn"
        by (simp_all add: outKey_def inKey_def)
      show ?thesis unfolding ent k using o by auto
    qed
  qed
  moreover have "outRefsUnique g'"
  proof (cases "entryAt g (outKey (undirected d)) (source d) (target d)")
    case None
    with new have a: "a = length (sets g)" by simp
    have fresh: "\<And>k x y. entryAt g k x y \<noteq> Some (SetRef a)"
      using refsValid_entry[OF rv] a by fastforce
    show ?thesis
      unfolding outRefsUnique_def
    proof (intro allI impI, elim conjE)
      fix k k' x x' y y' v
      assume k: "k = KeyOut \<or> k = KeyUndirectedOut" and k': "k' = KeyOut \<or> k' = KeyUndirectedOut"
        and 1: "entryAt g' k x y = Some v" and 2: "entryAt g' k' x' y' = Some v"
      have io: "inKey (undirected d) \<noteq> k" "inKey (undirected d) \<noteq> k'"
        using k k' by (auto simp: inKey_def)
      from 1 io have c1: "(k = outKey (undirected d) \<and> x = source d \<and> y = target d \<and> v = SetRef a)
          \<or> entryAt g k x y = Some v"
        by (auto simp: ent split: if_splits)
      from 2 io have c2: "(k' = outKey (undirected d) \<and> x' = source d \<and> y' = target d \<and> v = SetRef a)
          \<or> entryAt g k' x' y' = Some v"
        by (auto simp: ent split: if_splits)
      from c1 c2 fresh ou k k' show "k = k' \<and> x = x' \<and> y = y'"
        unfolding outRefsUnique_def by blast
    qed
  next
    case (Some w)
    with old have "entryAt g (outKey (undirected d)) (source d) (target d) = Some (SetRef a)"
      by simp
    then have same: "\<And>k x y. (k = KeyOut \<or> k = KeyUndirectedOut) \<Longrightarrow> entryAt g' k x y = entryAt g k x y"
      using outKey_cases[of "undirected d"] by (auto simp: ent)
    show ?thesis
      using ou unfolding outRefsUnique_def
      by (metis same)
  qed
  moreover have "setsDistinct g'"
  proof (cases "entryAt g (outKey (undirected d)) (source d) (target d)")
    case None
    with new sd show ?thesis by (auto simp: setsDistinct_def)
  next
    case (Some w)
    with old have s: "sets g' = (sets g)[a := setAdd e (sets g ! a)]" and "a < length (sets g)"
      by auto
    then show ?thesis
      using sd unfolding setsDistinct_def
      by (auto simp: distinct_setAdd dest!: set_update_subset_insert[THEN subsetD])
  qed
  ultimately show ?thesis by (simp add: wellIndexed_def)
qed

lemma entryAt_cong: "(\<And>k x. bucketOf g' k x = bucketOf g k x) \<Longrightarrow> entryAt g' = entryAt g"
  by (simp add: entryAt_def fun_eq_iff)

lemma all_distinct_update:
  assumes "\<forall>xs\<in>set h. distinct xs" and "distinct ys"
  shows "\<forall>xs\<in>set (h[a := ys]). distinct xs"
  using assms set_update_subset_insert[of h a ys] by auto

lemma distinct_members: "\<forall>xs\<in>set h. distinct xs \<Longrightarrow> distinct (members h a)"
  by (simp add: members_def)

lemma wellIndexed_cleared:
  assumes m: "multi g" and c: "clearEdgeFromStructureIndex g e d = Inr g'" and w: "wellIndexed g"
  shows "wellIndexed g'"
proof -
  note f = clearEdgeFromStructureIndex_multi[OF m c]
  have b: "\<And>k x. bucketOf g' k x = bucketOf g k x" by (rule f(1))
  have en: "entryAt g' = entryAt g" by (rule entryAt_cong) (rule b)
  have len: "length (sets g') = length (sets g)"
    by (simp add: f(2) split: option.splits entry.splits)
  from w have sd0: "\<forall>xs\<in>set (sets g). distinct xs"
    by (simp add: wellIndexed_def setsDistinct_def)
  have sd: "setsDistinct g'"
  proof (cases "entryAt g (outKey (undirected d)) (source d) (target d)")
    case None
    with sd0 show ?thesis by (simp add: setsDistinct_def f(2))
  next
    case (Some v)
    show ?thesis
    proof (cases v)
      case (Scalar s)
      with Some sd0 show ?thesis by (simp add: setsDistinct_def f(2))
    next
      case (SetRef a)
      have "distinct (setDelete e (members (sets g) a))"
        by (intro distinct_setDelete distinct_members sd0)
      from all_distinct_update[OF sd0 this, of a] Some SetRef show ?thesis
        by (simp add: setsDistinct_def f(2))
    qed
  qed
  have 1: "keysDistinct g' = keysDistinct g" by (simp add: keysDistinct_def b)
  have 2: "refsValid g' = refsValid g" by (simp add: refsValid_def b len)
  have 3: "refsDistinct g' = refsDistinct g" by (simp add: refsDistinct_def b)
  have 4: "entriesShared g' = entriesShared g" by (simp add: entriesShared_def en)
  have 5: "noSelfIn g' = noSelfIn g" by (simp add: noSelfIn_def en)
  have 6: "outRefsUnique g' = outRefsUnique g" by (simp add: outRefsUnique_def en)
  from w sd show ?thesis
    by (simp add: wellIndexed_def 1 2 3 4 5 6)
qed

lemma map_of_newGraph:
  "map_of (map (\<lambda>k. (k, emptyNode)) ks) x = None \<or>
   map_of (map (\<lambda>k. (k, emptyNode)) ks) x = Some emptyNode"
  by (induction ks) auto

lemma bucketOf_newGraph [simp]: "bucketOf (newGraph m um ks) k x = []"
proof -
  have n: "nodes (newGraph m um ks) = map (\<lambda>k. (k, emptyNode)) ks"
    by (simp add: newGraph_def)
  have e: "orEmpty (getBucket k emptyNode) = []"
    by (cases k) (simp_all add: emptyNode_def orEmpty_def)
  from map_of_newGraph[of ks x] show ?thesis
    unfolding bucketOf_def n by (auto simp: e)
qed

lemma sets_newGraph [simp]: "sets (newGraph m um ks) = []"
  by (simp add: newGraph_def)

lemma wellIndexed_fresh: "wellIndexed (newGraph m um ks)"
  by (simp add: wellIndexed_def keysDistinct_def refsValid_def refsDistinct_def
      entriesShared_def noSelfIn_def outRefsUnique_def setsDistinct_def entryAt_def)

lemma wellIndexed_stored: "wellIndexed g \<Longrightarrow> wellIndexed (g\<lparr>edges := es\<rparr>)"
proof -
  have en: "entryAt (g\<lparr>edges := es\<rparr>) = entryAt g"
    by (rule entryAt_cong) simp
  have 1: "keysDistinct (g\<lparr>edges := es\<rparr>) = keysDistinct g" by (simp add: keysDistinct_def)
  have 2: "refsValid (g\<lparr>edges := es\<rparr>) = refsValid g" by (simp add: refsValid_def)
  have 3: "refsDistinct (g\<lparr>edges := es\<rparr>) = refsDistinct g" by (simp add: refsDistinct_def)
  have 4: "entriesShared (g\<lparr>edges := es\<rparr>) = entriesShared g"
    by (simp add: entriesShared_def en)
  have 5: "noSelfIn (g\<lparr>edges := es\<rparr>) = noSelfIn g" by (simp add: noSelfIn_def en)
  have 6: "outRefsUnique (g\<lparr>edges := es\<rparr>) = outRefsUnique g"
    by (simp add: outRefsUnique_def en)
  have 7: "setsDistinct (g\<lparr>edges := es\<rparr>) = setsDistinct g" by (simp add: setsDistinct_def)
  assume "wellIndexed g"
  then show ?thesis by (simp add: wellIndexed_def 1 2 3 4 5 6 7)
qed

text \<open>Every multigraph index the hooks can produce is well indexed.\<close>

lemma reachable_wellIndexed: "reachable g \<Longrightarrow> multi g \<Longrightarrow> wellIndexed g"
proof (induction rule: reachable.induct)
  case (fresh m um ks)
  show ?case by (rule wellIndexed_fresh)
next
  case (inserted g e d g')
  from inserted.hyps(2) inserted.prems have "multi g"
    by (simp add: updateStructureIndex_flags)
  with inserted show ?case by (blast intro: wellIndexed_inserted)
next
  case (cleared g e d g')
  from cleared.hyps(2) cleared.prems have "multi g"
    by (simp add: clearEdgeFromStructureIndex_flags)
  with cleared show ?case by (blast intro: wellIndexed_cleared)
next
  case (stored g es)
  then show ?case by (simp add: wellIndexed_stored)
qed

lemma allRefs_Cons: "allRefs ((y, v) # b) = ((\<exists>a. v = SetRef a) \<and> allRefs b)"
  by (auto simp: allRefs_def)

lemma refsValid_allRefs: "refsValid g \<Longrightarrow> allRefs (bucketOf g k x)"
  unfolding refsValid_def allRefs_def by blast

lemma entry_ref_reads [simp]:
  "arrayFrom h (SetRef a) = members h a"
  "valuesOf h (SetRef a) = Inr (members h a)"
  "sizeOf h (SetRef a) = Num (length (members h a))"
  "truthy (SetRef a)"
  by (simp_all add: arrayFrom_def valuesOf_def sizeOf_def truthy_def)

lemma pushValues_refs:
  "allRefs b \<Longrightarrow> pushValues h b acc = Inr (acc @ concat (map (\<lambda>(y, v). arrayFrom h v) b))"
proof (induction b arbitrary: acc)
  case Nil
  show ?case by simp
next
  case (Cons p b)
  obtain y v where p: "p = (y, v)" by (cases p)
  with Cons.prems obtain a where a: "v = SetRef a" and r: "allRefs b"
    by (auto simp: allRefs_Cons)
  show ?case
    by (simp add: p a Cons.IH[OF r] bindE_def)
qed

lemma foldl_jsAdd_refs:
  "allRefs b \<Longrightarrow>
   foldl (\<lambda>nb (k, v). jsAdd nb (sizeOf h v)) (Num n) b =
   Num (n + length (concat (map (\<lambda>(y, v). arrayFrom h v) b)))"
proof (induction b arbitrary: n)
  case Nil
  show ?case by simp
next
  case (Cons p b)
  obtain y v where p: "p = (y, v)" by (cases p)
  with Cons.prems obtain a where a: "v = SetRef a" and r: "allRefs b"
    by (auto simp: allRefs_Cons)
  show ?case
    by (simp add: p a Cons.IH[OF r] add.assoc)
qed

lemma collectEdges_refs:
  assumes "allRefs (orEmpty bo)"
  shows "collectEdges g bo None = Inr (concat (map (\<lambda>(y, v). arrayFrom (sets g) v) (orEmpty bo)))"
    and "countEdges g bo None =
           Num (length (concat (map (\<lambda>(y, v). arrayFrom (sets g) v) (orEmpty bo))))"
  using assms pushValues_refs[of "orEmpty bo" "sets g" "[]"]
    foldl_jsAdd_refs[of "orEmpty bo" "sets g" 0]
  by (cases bo; simp add: collectEdges_def countEdges_def orEmpty_def)+

lemma allRefs_lookup: "allRefs b \<Longrightarrow> map_of b y = Some v \<Longrightarrow> \<exists>a. v = SetRef a"
  unfolding allRefs_def by (blast dest: map_of_SomeD)

lemma collectEdges_key_refs:
  assumes "allRefs (orEmpty bo)"
  shows "collectEdges g bo (Some key) =
           Inr (case map_of (orEmpty bo) key of None \<Rightarrow> [] | Some v \<Rightarrow> arrayFrom (sets g) v)"
    and "countEdges g bo (Some key) =
           Num (length (case map_of (orEmpty bo) key of None \<Rightarrow> []
                        | Some v \<Rightarrow> arrayFrom (sets g) v))"
  using assms allRefs_lookup[of "orEmpty bo" key]
  by (cases bo; auto simp: collectEdges_def countEdges_def orEmpty_def split: option.splits)+

lemma readBucket_refs:
  assumes "allRefs (orEmpty bo)"
  shows "readBucket cnt g bo None (es, Num n) =
           Inr (if cnt
                then (es, Num (n + length (concat (map (\<lambda>(y, v). arrayFrom (sets g) v) (orEmpty bo)))))
                else (es @ concat (map (\<lambda>(y, v). arrayFrom (sets g) v) (orEmpty bo)), Num n))"
  using collectEdges_refs[OF assms(1), of g]
  by (simp add: readBucket_def bindE_def)

lemma readBucket_key_refs:
  assumes "allRefs (orEmpty bo)"
  shows "readBucket cnt g bo (Some key) (es, Num n) =
           Inr (if cnt
                then (es, Num (n + length (case map_of (orEmpty bo) key of None \<Rightarrow> []
                                            | Some v \<Rightarrow> arrayFrom (sets g) v)))
                else (es @ (case map_of (orEmpty bo) key of None \<Rightarrow> []
                            | Some v \<Rightarrow> arrayFrom (sets g) v), Num n))"
  using collectEdges_key_refs[OF assms(1), of g key]
  by (simp add: readBucket_def bindE_def)

lemma bucketOf_node: "map_of (nodes g) x = Some nd \<Longrightarrow> orEmpty (getBucket k nd) = bucketOf g k x"
  by (simp add: bucketOf_def)

text \<open>A node query on an index whose entries are all set references.\<close>

lemma createEdgeArrayForNode_refs:
  assumes rv: "refsValid g" and hn: "hasNode g x"
  shows "createEdgeArrayForNode cnt g ty dir x =
           Inr (if cnt then Number (Num (length (nodeEdges g ty dir x)))
                else EdgeArray (nodeEdges g ty dir x))"
proof -
  from hn obtain nd where nd: "map_of (nodes g) x = Some nd"
    by (auto simp: hasNode_def)
  have r: "\<And>k. allRefs (orEmpty (getBucket k nd))"
    using refsValid_allRefs[OF rv] by (simp add: bucketOf_node[OF nd])
  have e: "\<And>k. concat (map (\<lambda>(y, v). arrayFrom (sets g) v) (orEmpty (getBucket k nd))) = edgesIn g k x"
    by (simp add: edgesIn_def bucketOf_node[OF nd])
  note rb = readBucket_refs[OF r[of KeyIn], simplified]
    readBucket_refs[OF r[of KeyOut], simplified]
    readBucket_refs[OF r[of KeyUndirectedIn], simplified]
    readBucket_refs[OF r[of KeyUndirectedOut], simplified]
  note ee = e[of KeyIn, simplified] e[of KeyOut, simplified]
    e[of KeyUndirectedIn, simplified] e[of KeyUndirectedOut, simplified]
  show ?thesis
    unfolding createEdgeArrayForNode_def computeIndex_def Let_def nd option.case
    by (cases cnt) (auto simp: rb ee bindE_def nodeEdges_def)
qed

lemma members_out_of_range: "length h \<le> a \<Longrightarrow> members h a = []"
  by (simp add: members_def)

lemma members_update: "members (h[a := xs]) a' = (if a' = a \<and> a < length h then xs else members h a')"
  by (simp add: members_def)

lemma members_snoc: "members (h @ [xs]) a' = (if a' = length h then xs else members h a')"
  by (auto simp: members_def nth_append)

text \<open>The sets after an insertion: only the set of the inserted pair gains the edge.\<close>

lemma members_inserted:
  assumes "multi g" and "updateStructureIndex g e d = Inr g'"
    and "refsValid g" and "entriesShared g"
    and "entryAt g' (outKey (undirected d)) (source d) (target d) = Some (SetRef a)"
  shows "members (sets g') a' =
           (if a' = a then setAdd e (members (sets g) a') else members (sets g) a')"
proof -
  from insertion_facts[OF assms(1-4)] obtain b where
    ent: "\<And>k x y. entryAt g' k x y =
        (if (k = outKey (undirected d) \<and> x = source d \<and> y = target d) \<or>
            (source d \<noteq> target d \<and> k = inKey (undirected d) \<and> x = target d \<and> y = source d)
         then Some (SetRef b) else entryAt g k x y)"
    and "\<And>k x. bucketOf g' k x = bucketOf g k x \<or>
          (\<exists>y. bucketOf g' k x = bucketOf g k x @ [(y, SetRef b)] \<and>
               map_of (bucketOf g k x) y = None \<and> b = length (sets g))"
    and new: "entryAt g (outKey (undirected d)) (source d) (target d) = None \<Longrightarrow>
          b = length (sets g) \<and> sets g' = sets g @ [[e]]"
    and old: "entryAt g (outKey (undirected d)) (source d) (target d) \<noteq> None \<Longrightarrow>
          entryAt g (outKey (undirected d)) (source d) (target d) = Some (SetRef b) \<and>
          b < length (sets g) \<and> sets g' = (sets g)[b := setAdd e (sets g ! b)]"
    by blast
  from assms(5) ent[of "outKey (undirected d)" "source d" "target d"] have ba: "b = a"
    by simp
  show ?thesis
  proof (cases "entryAt g (outKey (undirected d)) (source d) (target d)")
    case None
    from new[OF None] have s: "sets g' = sets g @ [[e]]" and a: "a = length (sets g)"
      unfolding ba by simp_all
    have "members (sets g) (length (sets g)) = []" by (simp add: members_def)
    then show ?thesis
      unfolding s a by (simp add: members_snoc setAdd_def)
  next
    case (Some w)
    then have "entryAt g (outKey (undirected d)) (source d) (target d) \<noteq> None" by simp
    from old[OF this] have lt: "a < length (sets g)"
      and s: "sets g' = (sets g)[a := setAdd e (sets g ! a)]"
      unfolding ba by simp_all
    from lt have "members (sets g) a = sets g ! a" by (simp add: members_def)
    then show ?thesis
      unfolding s by (simp add: members_update lt)
  qed
qed




lemma updateStructureIndex_succeeds:
  assumes "multi g" and "refsValid g" and "hasNode g (source d)" and "hasNode g (target d)"
  shows "\<exists>g'. updateStructureIndex g e d = Inr g'"
proof -
  from assms(3,4) obtain sd td where sd: "map_of (nodes g) (source d) = Some sd"
    and td: "map_of (nodes g) (target d) = Some td"
    by (auto simp: hasNode_def)
  have "\<And>w. map_of (orEmpty (getBucket (outKey (undirected d)) sd)) (target d) = Some w
      \<Longrightarrow> \<exists>a. w = SetRef a"
    using refsValid_entry[OF assms(2), of "outKey (undirected d)" "source d" "target d"]
    by (auto simp: entryAt_def bucketOf_def sd)
  then show ?thesis
    using assms(1)
    by (auto simp: updateStructureIndex_def sd td Let_def split: option.splits entry.splits)
qed




lemmas family_defs = edgesFamily_def inEdgesFamily_def outEdgesFamily_def
  inboundEdgesFamily_def outboundEdgesFamily_def directedEdgesFamily_def
  undirectedEdgesFamily_def selfLoopsFamily_def EDGES_ITERATION_def

lemma outEdges_node:
  assumes "refsValid g" and "hasNode g x"
  shows "attachEdgeArrayCreator False outEdgesFamily g [x] = Inr (EdgeArray (edgesIn g KeyOut x))"
    and "attachEdgeArrayCreator False inEdgesFamily g [x] = Inr (EdgeArray (edgesIn g KeyIn x))"
  using assms
  by (simp_all add: attachEdgeArrayCreator_def createEdgeArrayForNode_refs family_defs nodeEdges_def)



lemma inserted_entry:
  assumes w: "wellIndexed g" and m: "multi g"
    and u: "updateStructureIndex g e d = Inr g'" and nu: "\<not> undirected d"
  obtains a where "entryAt g' KeyOut (source d) (target d) = Some (SetRef a)"
    and "entryAt g KeyOut (source d) (target d) = None \<or>
         entryAt g KeyOut (source d) (target d) = Some (SetRef a)"
    and "entryAt g KeyOut (source d) (target d) = None \<Longrightarrow> members (sets g) a = []"
proof -
  from w have rv: "refsValid g" and es: "entriesShared g" by (simp_all add: wellIndexed_def)
  from nu have ok: "outKey (undirected d) = KeyOut" by (simp add: outKey_def)
  from insertion_facts[OF m u rv es] obtain b where
    ent: "\<And>k x y. entryAt g' k x y =
        (if (k = outKey (undirected d) \<and> x = source d \<and> y = target d) \<or>
            (source d \<noteq> target d \<and> k = inKey (undirected d) \<and> x = target d \<and> y = source d)
         then Some (SetRef b) else entryAt g k x y)"
    and bk: "\<And>k x. bucketOf g' k x = bucketOf g k x \<or>
          (\<exists>y. bucketOf g' k x = bucketOf g k x @ [(y, SetRef b)] \<and>
               map_of (bucketOf g k x) y = None \<and> b = length (sets g))"
    and new: "entryAt g (outKey (undirected d)) (source d) (target d) = None \<Longrightarrow>
          b = length (sets g) \<and> sets g' = sets g @ [[e]]"
    and old: "entryAt g (outKey (undirected d)) (source d) (target d) \<noteq> None \<Longrightarrow>
          entryAt g (outKey (undirected d)) (source d) (target d) = Some (SetRef b) \<and>
          b < length (sets g) \<and> sets g' = (sets g)[b := setAdd e (sets g ! b)]"
    by blast
  show ?thesis
  proof (rule that[of b])
    show "entryAt g' KeyOut (source d) (target d) = Some (SetRef b)"
      by (simp add: ent ok)
    show "entryAt g KeyOut (source d) (target d) = None \<or>
          entryAt g KeyOut (source d) (target d) = Some (SetRef b)"
      using old by (cases "entryAt g KeyOut (source d) (target d)") (auto simp: ok)
    show "entryAt g KeyOut (source d) (target d) = None \<Longrightarrow> members (sets g) b = []"
      using new by (simp add: ok members_def)
  qed
qed




subsection \<open>Shared sets in a multigraph\<close>



subsection \<open>The gate of a path query\<close>


subsection \<open>Removing a self-loop\<close>

text \<open>
  C6. The claim says that removing a self-loop touches only the out-bucket of its node, in
  simple and in multigraph mode. Insertion stops at a self-loop, removal does not: in a
  simple graph it goes on to \<open>delete targetIndex[source]\<close> on the in-bucket of the same
  node. After a self-loop \<open>e\<close> on \<open>S\<close> is inserted into a new simple graph, \<open>S\<close> has an
  out-bucket and no in-bucket, and removing \<open>e\<close> raises a TypeError; in a multigraph the
  same removal only empties the set.
\<close>

theorem simple_self_loop_removal_reads_in_bucket:
  "updateStructureIndex (newGraph False True [Str ''S'']) ''e''
      \<lparr>source = Str ''S'', target = Str ''S'', undirected = False\<rparr> =
     Inr \<lparr>multi = False, usesMap = True,
          nodes = [(Str ''S'', emptyNode\<lparr>outB := Some [(Str ''S'', Scalar ''e'')]\<rparr>)],
          edges = [], sets = []\<rparr>
   \<and> clearEdgeFromStructureIndex
        \<lparr>multi = False, usesMap = True,
         nodes = [(Str ''S'', emptyNode\<lparr>outB := Some [(Str ''S'', Scalar ''e'')]\<rparr>)],
         edges = [], sets = []\<rparr> ''e''
        \<lparr>source = Str ''S'', target = Str ''S'', undirected = False\<rparr> = Inl TypeError
   \<and> clearEdgeFromStructureIndex
        \<lparr>multi = True, usesMap = True,
         nodes = [(Str ''S'', emptyNode\<lparr>outB := Some [(Str ''S'', SetRef 0)]\<rparr>)],
         edges = [], sets = [[''e'']]\<rparr> ''e''
        \<lparr>source = Str ''S'', target = Str ''S'', undirected = False\<rparr> =
       Inr \<lparr>multi = True, usesMap = True,
         nodes = [(Str ''S'', emptyNode\<lparr>outB := Some [(Str ''S'', SetRef 0)]\<rparr>)],
         edges = [], sets = [[]]\<rparr>"
  by code_simp

subsection \<open>Node and bunch queries on a simple graph\<close>




subsection \<open>Scanning the edge store\<close>

lemma scanEdges_foldl:
  "foldl (\<lambda>(list, nb) (edge, d).
              if matchesType ty d
              then (if \<not> count then list @ [edge] else list, nb + 1)
              else (list, nb)) (l, n) es =
   (l @ (if count then [] else map fst (filter (\<lambda>(e, d). matchesType ty d) es)),
    n + length (filter (\<lambda>(e, d). matchesType ty d) es))"
proof (induction es arbitrary: l n)
  case Nil
  show ?case by simp
next
  case (Cons p es)
  obtain e d where p: "p = (e, d)" by (cases p)
  show ?case by (simp add: p Cons.IH)
qed

lemma scanEdges_filter:
  "scanEdges count ty es =
     (if count then [] else map fst (filter (\<lambda>(e, d). matchesType ty d) es),
      length (filter (\<lambda>(e, d). matchesType ty d) es))"
  unfolding scanEdges_def by (simp add: scanEdges_foldl)




subsection \<open>Dispatch on one argument and missing nodes\<close>


















subsection \<open>The same queries on a multigraph\<close>

lemma count_list_concat:
  "count_list (concat xss) e = sum_list (map (\<lambda>xs. count_list xs e) xss)"
  by (induction xss) auto

lemma count_list_one_ref:
  assumes "distinct (map snd b)"
    and "\<forall>(y, v) \<in> set b. \<exists>a'. v = SetRef a'"
    and "\<And>a'. count_list (members h a') e = (if a' = a then 1 else 0)"
  shows "count_list (concat (map (\<lambda>(y, v). arrayFrom h v) b)) e =
           (if SetRef a \<in> snd ` set b then 1 else 0)"
  using assms(1,2)
proof (induction b)
  case Nil
  show ?case by simp
next
  case (Cons p b)
  obtain y v where p: "p = (y, v)" by (cases p)
  with Cons.prems obtain a' where a': "v = SetRef a'" by auto
  from Cons.prems p have d: "distinct (map snd b)" and r: "\<forall>(y, v) \<in> set b. \<exists>a'. v = SetRef a'"
    and n: "v \<notin> snd ` set b"
    by auto
  show ?case
  proof (cases "a' = a")
    case True
    with n a' have "SetRef a \<notin> snd ` set b" by simp
    with Cons.IH[OF d r] True a' p assms(3)[of a] show ?thesis by simp
  next
    case False
    with Cons.IH[OF d r] a' p assms(3)[of a'] show ?thesis by (auto simp: image_iff)
  qed
qed

text \<open>
  How often an edge shows in what a node query reads from one bucket, when the edge is a
  member of the set \<open>a\<close> alone, and there once.
\<close>

lemma count_edgesIn:
  assumes w: "wellIndexed g"
    and c: "\<And>a'. count_list (members (sets g) a') e = (if a' = a then 1 else 0)"
  shows "count_list (edgesIn g k x) e = (if \<exists>y. entryAt g k x y = Some (SetRef a) then 1 else 0)"
proof -
  from w have kd: "distinct (map fst (bucketOf g k x))" and rd: "distinct (map snd (bucketOf g k x))"
    and rv0: "refsValid g"
    by (auto simp: wellIndexed_def keysDistinct_def refsDistinct_def)
  from refsValid_allRefs[OF rv0, of k x]
  have rv: "\<forall>(y, v) \<in> set (bucketOf g k x). \<exists>a'. v = SetRef a'"
    by (simp add: allRefs_def)
  have "(SetRef a \<in> snd ` set (bucketOf g k x)) = (\<exists>y. entryAt g k x y = Some (SetRef a))"
    using kd by (force simp: entryAt_def image_iff)
  with count_list_one_ref[OF rd rv c] show ?thesis
    by (simp add: edgesIn_def)
qed

lemma members_fresh:
  assumes "\<forall>xs \<in> set h. e \<notin> set xs"
  shows "e \<notin> set (members h a)"
  using assms by (simp add: members_def)

lemma distinct_count_list: "distinct xs \<Longrightarrow> count_list xs e = (if e \<in> set xs then 1 else 0)"
  by (induction xs) auto

lemma count_list_setAdd:
  "distinct xs \<Longrightarrow> count_list (setAdd e xs) e' =
     (if e' = e then 1 else count_list xs e')"
  by (auto simp: setAdd_def distinct_count_list)

text \<open>
  On a multigraph index the hooks can produce, a directed edge with a new identifier,
  added from \<open>A\<close> to a different node \<open>B\<close>, is in \<open>outEdges(A)\<close> once, in \<open>inEdges(B)\<close>
  once, and neither in \<open>inEdges(A)\<close> nor in \<open>outEdges(B)\<close>.
\<close>

lemma multigraph_added_edge_indexed:
  assumes r: "reachable g" and m: "multi g" and ab: "A \<noteq> B"
    and ha: "hasNode g A" and hb: "hasNode g B"
    and fresh: "\<forall>xs \<in> set (sets g). e \<notin> set xs"
  shows "\<exists>g' oa ib ia ob.
           updateStructureIndex g e \<lparr>source = A, target = B, undirected = False\<rparr> = Inr g' \<and>
           attachEdgeArrayCreator False outEdgesFamily g' [A] = Inr (EdgeArray oa) \<and>
           count_list oa e = 1 \<and>
           attachEdgeArrayCreator False inEdgesFamily g' [B] = Inr (EdgeArray ib) \<and>
           count_list ib e = 1 \<and>
           attachEdgeArrayCreator False inEdgesFamily g' [A] = Inr (EdgeArray ia) \<and>
           e \<notin> set ia \<and>
           attachEdgeArrayCreator False outEdgesFamily g' [B] = Inr (EdgeArray ob) \<and>
           e \<notin> set ob"
proof -
  define d where "d = \<lparr>source = A, target = B, undirected = False\<rparr>"
  have sd: "source d = A" and td: "target d = B" and nu: "\<not> undirected d"
    by (simp_all add: d_def)
  from reachable_wellIndexed[OF r m] have w0: "wellIndexed g" .
  then have rv0: "refsValid g" and es0: "entriesShared g" and sd0: "setsDistinct g"
    by (simp_all add: wellIndexed_def)
  from updateStructureIndex_succeeds[OF m rv0, of d e] ha hb
  obtain g' where u: "updateStructureIndex g e d = Inr g'" by (auto simp: sd td)
  have r': "reachable g'" by (rule reachable.inserted[OF r u])
  have m': "multi g'" using updateStructureIndex_flags[OF u] m by simp
  have w': "wellIndexed g'" by (rule reachable_wellIndexed[OF r' m'])
  then have rv': "refsValid g'" and es': "entriesShared g'" and ns': "noSelfIn g'"
    and ou': "outRefsUnique g'"
    by (simp_all add: wellIndexed_def)
  have n': "hasNode g' = hasNode g" by (rule updateStructureIndex_multi(6)[OF m u])
  from inserted_entry[OF w0 m u nu] obtain a where
    oAB: "entryAt g' KeyOut A B = Some (SetRef a)"
    by (auto simp: sd td)
  then have ra: "entryAt g' (outKey (undirected d)) (source d) (target d) = Some (SetRef a)"
    by (simp add: outKey_def nu sd td)
  have c: "count_list (members (sets g') a') e = (if a' = a then 1 else 0)" for a'
  proof -
    from sd0 have dm: "distinct (members (sets g) a')"
      by (simp add: setsDistinct_def distinct_members)
    from members_fresh[OF fresh, of a'] have "count_list (members (sets g) a') e = 0"
      by (simp add: count_list_0_iff)
    with members_inserted[OF m u rv0 es0 ra, of a'] dm show ?thesis
      by (auto simp: count_list_setAdd)
  qed
  note cnt = count_edgesIn[OF w' c]
  from es' ab oAB have iBA: "entryAt g' KeyIn B A = Some (SetRef a)"
    by (simp add: entriesShared_def)
  have noA: "\<not> (\<exists>y. entryAt g' KeyIn A y = Some (SetRef a))"
  proof
    assume "\<exists>y. entryAt g' KeyIn A y = Some (SetRef a)"
    then obtain y where y: "entryAt g' KeyIn A y = Some (SetRef a)" ..
    with ns' have "y \<noteq> A" by (auto simp: noSelfIn_def)
    with es' y have "entryAt g' KeyOut y A = Some (SetRef a)"
      by (simp add: entriesShared_def)
    with ou' oAB have "y = A \<and> A = B" unfolding outRefsUnique_def by blast
    with ab show False by simp
  qed
  have noB: "\<not> (\<exists>y. entryAt g' KeyOut B y = Some (SetRef a))"
  proof
    assume "\<exists>y. entryAt g' KeyOut B y = Some (SetRef a)"
    then obtain y where "entryAt g' KeyOut B y = Some (SetRef a)" ..
    with ou' oAB have "B = A" unfolding outRefsUnique_def by blast
    with ab show False by simp
  qed
  have 1: "count_list (edgesIn g' KeyOut A) e = 1" using cnt[of KeyOut A] oAB by auto
  have 2: "count_list (edgesIn g' KeyIn B) e = 1" using cnt[of KeyIn B] iBA by auto
  have 3: "e \<notin> set (edgesIn g' KeyIn A)"
    using cnt[of KeyIn A] noA by (simp add: count_list_0_iff)
  have 4: "e \<notin> set (edgesIn g' KeyOut B)"
    using cnt[of KeyOut B] noB by (simp add: count_list_0_iff)
  from ha hb n' have ha': "hasNode g' A" and hb': "hasNode g' B" by simp_all
  from u 1 2 3 4 outEdges_node[OF rv' ha'] outEdges_node[OF rv' hb']
  show ?thesis unfolding d_def by blast
qed

lemma graphSize_length: "graphSize g = length (map fst (edges g))"
  by (simp add: graphSize_def)

lemma createEdgeArray_count:
  "createEdgeArray False g ty = EdgeArray es \<Longrightarrow>
   createEdgeArray True g ty = Number (Num (length es))"
  by (cases "ty = Mixed") (auto simp: createEdgeArray_def scanEdges_filter graphSize_def)

text \<open>A path query on an index whose entries are all set references.\<close>

lemma createEdgeArrayForPath_refs:
  assumes rv: "refsValid g" and hn: "hasNode g s"
  shows "\<exists>xs. \<forall>cnt. createEdgeArrayForPath cnt g ty s t =
           Inr (if cnt then Number (Num (length xs)) else EdgeArray xs)"
proof -
  from hn obtain nd where nd: "map_of (nodes g) s = Some nd"
    by (auto simp: hasNode_def)
  have r: "\<And>k. allRefs (orEmpty (getBucket k nd))"
    using refsValid_allRefs[OF rv] by (simp add: bucketOf_node[OF nd])
  note rb = readBucket_key_refs[OF r[of KeyIn], simplified]
    readBucket_key_refs[OF r[of KeyOut], simplified]
    readBucket_key_refs[OF r[of KeyUndirectedIn], simplified]
    readBucket_key_refs[OF r[of KeyUndirectedOut], simplified]
  define rd where "rd k = (case map_of (orEmpty (getBucket k nd)) t of None \<Rightarrow> []
                           | Some v \<Rightarrow> arrayFrom (sets g) v)" for k
  have rds: "(case map_of (orEmpty (inB nd)) t of None \<Rightarrow> [] | Some v \<Rightarrow> arrayFrom (sets g) v) = rd KeyIn"
    "(case map_of (orEmpty (outB nd)) t of None \<Rightarrow> [] | Some v \<Rightarrow> arrayFrom (sets g) v) = rd KeyOut"
    "(case map_of (orEmpty (undirectedInB nd)) t of None \<Rightarrow> [] | Some v \<Rightarrow> arrayFrom (sets g) v)
       = rd KeyUndirectedIn"
    "(case map_of (orEmpty (undirectedOutB nd)) t of None \<Rightarrow> [] | Some v \<Rightarrow> arrayFrom (sets g) v)
       = rd KeyUndirectedOut"
    by (simp_all add: rd_def)
  show ?thesis
  proof (intro exI allI)
    fix cnt
    show "createEdgeArrayForPath cnt g ty s t =
       Inr (if cnt
            then Number (Num (length
              ((if ty = Mixed \<or> ty = Directed then rd KeyIn @ rd KeyOut else []) @
               (if ty = Mixed \<or> ty = Undirected then rd KeyUndirectedIn @ rd KeyUndirectedOut
                else []))))
            else EdgeArray
              ((if ty = Mixed \<or> ty = Directed then rd KeyIn @ rd KeyOut else []) @
               (if ty = Mixed \<or> ty = Undirected then rd KeyUndirectedIn @ rd KeyUndirectedOut
                else [])))"
      unfolding createEdgeArrayForPath_def computeIndex_def Let_def nd option.case
      by (cases cnt) (auto simp: rb rds bindE_def)
  qed
qed

lemma bunchStep_name:
  "bunchStep nm g ty dir acc y = Inr acc' \<Longrightarrow> bunchStep nm' g ty dir acc y = Inr acc'"
  by (cases "hasNode g y") (simp_all add: bunchStep_def)

lemma overList_bunchStep_name:
  "overList (bunchStep nm g ty dir) xs acc = Inr es \<Longrightarrow>
   overList (bunchStep nm' g ty dir) xs acc = Inr es"
proof (induction xs arbitrary: acc)
  case Nil
  then show ?case by simp
next
  case (Cons x xs)
  from Cons.prems obtain acc' where 1: "bunchStep nm g ty dir acc x = Inr acc'"
    and 2: "overList (bunchStep nm g ty dir) xs acc' = Inr es"
    by (cases "bunchStep nm g ty dir acc x") (simp_all add: bindE_def)
  from bunchStep_name[OF 1, of nm'] Cons.IH[OF 2] show ?case
    by (simp add: bindE_def)
qed

text \<open>
  On an index whose entries are all set references, as in every multigraph the hooks
  produce, a counting entry point returns the length of what the collecting one returns.
\<close>

lemma set_valued_count_is_length:
  assumes rv: "refsValid g"
    and c: "attachEdgeArrayCreator False desc g args = Inr (EdgeArray es)"
  shows "attachEdgeArrayCreator True desc g args = Inr (Number (Num (length es)))"
proof (cases args)
  case Nil
  with c show ?thesis
    by (simp add: attachEdgeArrayCreator_def createEdgeArray_count)
next
  case (Cons x rest)
  note a1 = Cons
  show ?thesis
  proof (cases rest)
    case Nil
    show ?thesis
    proof (cases "hasNode g x")
      case True
      with c a1 Nil createEdgeArrayForNode_refs[OF rv True] show ?thesis
        by (simp add: attachEdgeArrayCreator_def)
    next
      case False
      show ?thesis
      proof (cases "isBunch x")
        case True
        then obtain xs where xs: "x = Arr xs" by (cases x) auto
        from c a1 Nil False True
        have "overList (bunchStep (name desc) g (type desc) (direction desc)) xs [] = Inr es"
          by (auto simp: attachEdgeArrayCreator_def createEdgeArrayForBunch_def computeIndex_def
              xs bindE_def split: sum.splits)
        from overList_bunchStep_name[OF this, of "counter desc"] a1 Nil False True
        show ?thesis
          by (simp add: attachEdgeArrayCreator_def createEdgeArrayForBunch_def computeIndex_def
              xs bindE_def)
      next
        case nb: False
        with c a1 Nil False show ?thesis by (simp add: attachEdgeArrayCreator_def)
      qed
    qed
  next
    case (Cons y rest')
    note a2 = Cons
    show ?thesis
    proof (cases rest')
      case Nil
      show ?thesis
      proof (cases "hasNode g x \<and> hasNode g y")
        case True
        then have hx: "hasNode g x" by simp
        from createEdgeArrayForPath_refs[OF rv hx, of "type desc" y] obtain xs where
          p: "\<And>cnt. createEdgeArrayForPath cnt g (type desc) x y =
                Inr (if cnt then Number (Num (length xs)) else EdgeArray xs)"
          by blast
        from c a1 a2 Nil True show ?thesis
          by (auto simp: attachEdgeArrayCreator_def Let_def p split: if_splits)
      next
        case False
        with c a1 a2 Nil show ?thesis
          by (auto simp: attachEdgeArrayCreator_def Let_def split: if_splits)
      qed
    next
      case (Cons z rest'')
      with c a1 a2 show ?thesis by (simp add: attachEdgeArrayCreator_def)
    qed
  qed
qed

lemma foldl_setAdd:
  "distinct acc \<Longrightarrow> distinct (foldl (\<lambda>es x. setAdd x es) acc zs) \<and>
     set (foldl (\<lambda>es x. setAdd x es) acc zs) = set acc \<union> set zs"
  by (induction zs arbitrary: acc) (auto simp: setAdd_def)

lemma foldl_setAdd_append:
  "foldl (\<lambda>es x. setAdd x es) acc (xs @ ys) =
   foldl (\<lambda>es x. setAdd x es) (foldl (\<lambda>es x. setAdd x es) acc xs) ys"
  by simp

lemma mergeEdgesFromMap_refs:
  "allRefs b \<Longrightarrow> mergeEdgesFromMap h acc (Some b) =
     Inr (foldl (\<lambda>es x. setAdd x es) acc (concat (map (\<lambda>(y, v). arrayFrom h v) b)))"
proof (induction b arbitrary: acc)
  case Nil
  show ?case by simp
next
  case (Cons p b)
  obtain y v where p: "p = (y, v)" by (cases p)
  with Cons.prems obtain a where a: "v = SetRef a" and r: "allRefs b"
    by (auto simp: allRefs_Cons)
  show ?case by (simp add: p a Cons.IH[OF r])
qed

lemma mergeEdgesFromObject_refs:
  "allRefs b \<Longrightarrow> mergeEdgesFromObject h acc (Some b) =
     Inr (foldl (\<lambda>es x. setAdd x es) acc (concat (map (\<lambda>(y, v). arrayFrom h v) b)))"
proof (induction b arbitrary: acc)
  case Nil
  show ?case by simp
next
  case (Cons p b)
  obtain y v where p: "p = (y, v)" by (cases p)
  with Cons.prems obtain a where a: "v = SetRef a" and r: "allRefs b"
    by (auto simp: allRefs_Cons)
  show ?case by (simp add: p a Cons.IH[OF r])
qed

lemma mergeEdges_refs:
  assumes "allRefs (orEmpty bo)"
  shows "mergeEdges g acc bo =
     Inr (foldl (\<lambda>es x. setAdd x es) acc
            (concat (map (\<lambda>(y, v). arrayFrom (sets g) v) (orEmpty bo))))"
  using assms mergeEdgesFromMap_refs[of "orEmpty bo" "sets g" acc]
    mergeEdgesFromObject_refs[of "orEmpty bo" "sets g" acc]
  by (cases bo) (simp_all add: mergeEdges_def orEmpty_def)

lemma bunchStep_refs:
  assumes rv: "refsValid g" and hn: "hasNode g y"
  shows "bunchStep nm g ty dir acc y =
           Inr (foldl (\<lambda>es x. setAdd x es) acc (nodeEdges g ty dir y))"
proof -
  from hn obtain nd where nd: "map_of (nodes g) y = Some nd"
    by (auto simp: hasNode_def)
  have r: "\<And>k. allRefs (orEmpty (getBucket k nd))"
    using refsValid_allRefs[OF rv] by (simp add: bucketOf_node[OF nd])
  have e: "\<And>k. concat (map (\<lambda>(y, v). arrayFrom (sets g) v) (orEmpty (getBucket k nd))) = edgesIn g k y"
    by (simp add: edgesIn_def bucketOf_node[OF nd])
  note mb = mergeEdges_refs[OF r[of KeyIn], simplified]
    mergeEdges_refs[OF r[of KeyOut], simplified]
    mergeEdges_refs[OF r[of KeyUndirectedIn], simplified]
    mergeEdges_refs[OF r[of KeyUndirectedOut], simplified]
  note ee = e[of KeyIn, simplified] e[of KeyOut, simplified]
    e[of KeyUndirectedIn, simplified] e[of KeyUndirectedOut, simplified]
  show ?thesis
    unfolding bunchStep_def nd option.case
    using hn by (auto simp: mb ee bindE_def nodeEdges_def)
qed

lemma overList_bunchStep_refs:
  assumes rv: "refsValid g" and hn: "\<forall>y \<in> set xs. hasNode g y"
  shows "overList (bunchStep nm g ty dir) xs acc =
           Inr (foldl (\<lambda>es x. setAdd x es) acc (concat (map (nodeEdges g ty dir) xs)))"
  using hn
proof (induction xs arbitrary: acc)
  case Nil
  show ?case by simp
next
  case (Cons x xs)
  then have "hasNode g x" and "\<forall>y \<in> set xs. hasNode g y" by simp_all
  with bunchStep_refs[OF rv, of x nm ty dir acc] Cons.IH show ?case
    by (simp add: bindE_def)
qed

text \<open>
  On an index whose entries are all set references, a bunch of existing nodes gets the
  edges its members' node queries read, each edge once, and the count is their number.
\<close>

lemma set_valued_bunch_is_union:
  assumes rv: "refsValid g" and nn: "\<not> hasNode g (Arr xs)" and hn: "\<forall>y \<in> set xs. hasNode g y"
  shows "\<exists>es. attachEdgeArrayCreator False desc g [Arr xs] = Inr (EdgeArray es) \<and>
              attachEdgeArrayCreator True desc g [Arr xs] = Inr (Number (Num (length es))) \<and>
              distinct es \<and>
              set es = (\<Union>y \<in> set xs. set (nodeEdges g (type desc) (direction desc) y))"
proof -
  define es where "es = foldl (\<lambda>es x. setAdd x es) []
      (concat (map (nodeEdges g (type desc) (direction desc)) xs))"
  from foldl_setAdd[of "[]" "concat (map (nodeEdges g (type desc) (direction desc)) xs)"]
  have d: "distinct es"
    and s: "set es = (\<Union>y \<in> set xs. set (nodeEdges g (type desc) (direction desc) y))"
    by (auto simp: es_def)
  from nn overList_bunchStep_refs[OF rv hn]
  have "attachEdgeArrayCreator False desc g [Arr xs] = Inr (EdgeArray es)"
    and "attachEdgeArrayCreator True desc g [Arr xs] = Inr (Number (Num (length es)))"
    by (simp_all add: attachEdgeArrayCreator_def createEdgeArrayForBunch_def computeIndex_def
        bindE_def es_def)
  with d s show ?thesis by blast
qed

text \<open>
  Inserting a self-loop, in a simple graph or a multigraph, changes no bucket but the
  out-side bucket of its node, where the node then has an entry for itself.
\<close>

lemma self_loop_insertion_frame:
  assumes sl: "source d = target d" and u: "updateStructureIndex g e d = Inr g'"
  shows "(k, x) \<noteq> (outKey (undirected d), source d) \<Longrightarrow> bucketOf g' k x = bucketOf g k x"
    and "entryAt g' (outKey (undirected d)) (source d) (source d) \<noteq> None"
proof -
  from u obtain sd where sd: "map_of (nodes g) (source d) = Some sd"
    by (auto simp: updateStructureIndex_def split: option.splits)
  define b0 where "b0 = orEmpty (getBucket (outKey (undirected d)) sd)"
  define v where "v = (case map_of b0 (target d) of Some w \<Rightarrow> w
      | None \<Rightarrow> if multi g then SetRef (length (sets g)) else Scalar e)"
  define b1 where "b1 = (if map_of b0 (target d) = None then b0 @ [(target d, v)] else b0)"
  have b1: "map_of b1 (source d) \<noteq> None"
    by (auto simp: b1_def sl map_add_def)
  have "\<exists>h2. g' = g\<lparr>nodes := AList.update (source d)
                   (setBucket (outKey (undirected d)) b1 sd) (nodes g), sets := h2\<rparr>"
  proof (cases "multi g")
    case True
    with u sl sd show ?thesis
      by (auto simp: updateStructureIndex_def Let_def b1_def v_def b0_def
          split: option.splits sum.splits if_splits entry.splits)
  next
    case False
    with u sl sd have "g' = g\<lparr>nodes := AList.update (source d)
                   (setBucket (outKey (undirected d)) b1 sd) (nodes g), sets := sets g\<rparr>"
      by (auto simp: updateStructureIndex_def Let_def b1_def v_def b0_def
          split: option.splits sum.splits if_splits entry.splits)
    then show ?thesis ..
  qed
  then obtain h2 where
    g': "g' = g\<lparr>nodes := AList.update (source d) (setBucket (outKey (undirected d)) b1 sd) (nodes g),
               sets := h2\<rparr>" ..
  have bs: "\<And>k. orEmpty (getBucket k sd) = bucketOf g k (source d)"
    by (simp add: bucketOf_def sd)
  show "(k, x) \<noteq> (outKey (undirected d), source d) \<Longrightarrow> bucketOf g' k x = bucketOf g k x"
    by (auto simp: g' bucketOf_nodes_update bs)
  show "entryAt g' (outKey (undirected d)) (source d) (source d) \<noteq> None"
    using b1 by (simp add: entryAt_def g' bucketOf_nodes_update)
qed

end
